theory Spec2Isabelle
  imports Main
begin

section \<open>The element store and Go's container/list\<close>

text \<open>
  The cache keeps its entries in a \<^verbatim>\<open>container/list\<close> list and finds them through a
  map from keys to \<^verbatim>\<open>*list.Element\<close>. Elements are heap objects that the map, the
  list links and the event channel all alias, so the model keeps an explicit store from
  addresses to elements. A pointer \<^verbatim>\<open>*Element\<close> is an \<open>addr option\<close> (\<open>None\<close> is
  \<^verbatim>\<open>nil\<close>). The sentinel \<^verbatim>\<open>l.root\<close> of the one list of a cache lives at address 0.
  Go's \<^verbatim>\<open>int\<close> is modelled as \<open>int\<close>: the counters count live elements and stay far
  from 64 bits. The list functions are those of Go's standard library
  (container/list/list.go); each definition follows the Go text quoted above it.
\<close>

type_synonym addr = nat

datatype error = InvalidCapacity | NilDeref | NilMapWrite | BadAssert | CloseOfClosed

text \<open>\<^verbatim>\<open>type entry[K, V] struct { key K; value V }\<close>\<close>

record ('k, 'v) entry =
  key :: 'k
  val :: 'v

text \<open>
  \<^verbatim>\<open>type Element struct { next, prev *Element; list *List; Value any }\<close>.
  A cache owns a single list, so the field \<^verbatim>\<open>list\<close> is either that list (\<open>lst\<close> is
  true) or \<^verbatim>\<open>nil\<close>. \<^verbatim>\<open>Value\<close> holds a \<^verbatim>\<open>*entry\<close>, or \<^verbatim>\<open>nil\<close> in the sentinel; the
  entry is reachable through its element only, so it is stored in place.
\<close>

record ('k, 'v) Element =
  nxt :: "addr option"
  prv :: "addr option"
  lst :: bool
  Value :: "('k, 'v) entry option"

type_synonym ('k, 'v) store = "addr \<Rightarrow> ('k, 'v) Element"

text \<open>\<^verbatim>\<open>type List struct { root Element; len int }\<close>, the sentinel being in the store.\<close>

record List =
  llen :: int

abbreviation root :: addr where
  "root \<equiv> 0"

definition zeroElement :: "('k, 'v) Element" where
  "zeroElement = \<lparr>nxt = None, prv = None, lst = False, Value = None\<rparr>"

definition and_then :: "error + 'a \<Rightarrow> ('a \<Rightarrow> error + 'b) \<Rightarrow> error + 'b" where
  "and_then r f = (case r of Inl e \<Rightarrow> Inl e | Inr x \<Rightarrow> f x)"

text \<open>The assignments \<^verbatim>\<open>p.next = v\<close> and \<^verbatim>\<open>p.prev = v\<close> through a pointer that may be nil.\<close>

definition set_next :: "addr option \<Rightarrow> addr option \<Rightarrow> ('k, 'v) store \<Rightarrow> error + ('k, 'v) store" where
  "set_next p v h = (case p of None \<Rightarrow> Inl NilDeref | Some a \<Rightarrow> Inr (h(a := (h a)\<lparr>nxt := v\<rparr>)))"

definition set_prev :: "addr option \<Rightarrow> addr option \<Rightarrow> ('k, 'v) store \<Rightarrow> error + ('k, 'v) store" where
  "set_prev p v h = (case p of None \<Rightarrow> Inl NilDeref | Some a \<Rightarrow> Inr (h(a := (h a)\<lparr>prv := v\<rparr>)))"

text \<open>
  \<^verbatim>\<open>func (e *Element) Prev() *Element {
    if p := e.prev; e.list != nil && p != &e.list.root { return p }
    return nil }\<close>
\<close>

definition Prev :: "('k, 'v) store \<Rightarrow> addr \<Rightarrow> addr option" where
  "Prev h e = (if lst (h e) \<and> prv (h e) \<noteq> Some root then prv (h e) else None)"

text \<open>
  \<^verbatim>\<open>func (l *List) Init() *List {
    l.root.next = &l.root; l.root.prev = &l.root; l.len = 0; return l }\<close>
\<close>

definition Init :: "('k, 'v) store \<Rightarrow> ('k, 'v) store \<times> List" where
  "Init h = (h(root := (h root)\<lparr>nxt := Some root, prv := Some root\<rparr>), \<lparr>llen = 0\<rparr>)"

text \<open>\<^verbatim>\<open>func (l *List) Back() *Element { if l.len == 0 { return nil }; return l.root.prev }\<close>\<close>

definition Back :: "('k, 'v) store \<Rightarrow> List \<Rightarrow> addr option" where
  "Back h l = (if llen l = 0 then None else prv (h root))"

text \<open>
  \<^verbatim>\<open>func (l *List) insert(e, at *Element) *Element {
    e.prev = at; e.next = at.next; e.prev.next = e; e.next.prev = e
    e.list = l; l.len++; return e }\<close>
\<close>

definition insert_at :: "addr \<Rightarrow> addr \<Rightarrow> ('k, 'v) store \<Rightarrow> List \<Rightarrow> error + ('k, 'v) store \<times> List" where
  "insert_at e at h l =
     (let h1 = h(e := (h e)\<lparr>prv := Some at\<rparr>);
          h2 = h1(e := (h1 e)\<lparr>nxt := nxt (h1 at)\<rparr>)
      in and_then (set_next (prv (h2 e)) (Some e) h2) (\<lambda>h3.
         and_then (set_prev (nxt (h3 e)) (Some e) h3) (\<lambda>h4.
         Inr (h4(e := (h4 e)\<lparr>lst := True\<rparr>), l\<lparr>llen := llen l + 1\<rparr>))))"

text \<open>
  \<^verbatim>\<open>func (l *List) PushFront(v any) *Element {
    l.lazyInit(); return l.insertValue(v, &l.root) }\<close>
  where \<^verbatim>\<open>lazyInit\<close> runs \<^verbatim>\<open>Init\<close> when \<^verbatim>\<open>l.root.next == nil\<close> and \<^verbatim>\<open>insertValue\<close>
  allocates \<^verbatim>\<open>&Element{Value: v}\<close>. The new element takes the next unused address
  \<open>fr\<close>; the result is the element, the store, the list header and the next unused
  address.
\<close>

definition PushFront ::
  "('k, 'v) entry \<Rightarrow> ('k, 'v) store \<Rightarrow> List \<Rightarrow> addr
     \<Rightarrow> error + addr \<times> ('k, 'v) store \<times> List \<times> addr" where
  "PushFront v h l fr =
     (let (h0, l0) = (if nxt (h root) = None then Init h else (h, l));
          h1 = h0(fr := zeroElement\<lparr>Value := Some v\<rparr>)
      in and_then (insert_at fr root h1 l0) (\<lambda>(h2, l2). Inr (fr, h2, l2, Suc fr)))"

text \<open>
  \<^verbatim>\<open>func (l *List) remove(e *Element) {
    e.prev.next = e.next; e.next.prev = e.prev
    e.next = nil; e.prev = nil; e.list = nil; l.len-- }\<close>
\<close>

definition remove_elem :: "addr \<Rightarrow> ('k, 'v) store \<Rightarrow> List \<Rightarrow> error + ('k, 'v) store \<times> List" where
  "remove_elem e h l =
     and_then (set_next (prv (h e)) (nxt (h e)) h) (\<lambda>h1.
     and_then (set_prev (nxt (h1 e)) (prv (h1 e)) h1) (\<lambda>h2.
     Inr (h2(e := (h2 e)\<lparr>nxt := None, prv := None, lst := False\<rparr>), l\<lparr>llen := llen l - 1\<rparr>)))"

text \<open>
  \<^verbatim>\<open>func (l *List) Remove(e *Element) any {
    if e.list == l { l.remove(e) }; return e.Value }\<close>
\<close>

definition Remove ::
  "addr \<Rightarrow> ('k, 'v) store \<Rightarrow> List \<Rightarrow> error + ('k, 'v) entry option \<times> ('k, 'v) store \<times> List" where
  "Remove e h l =
     (if lst (h e) then and_then (remove_elem e h l) (\<lambda>(h', l'). Inr (Value (h' e), h', l'))
      else Inr (Value (h e), h, l))"

text \<open>
  \<^verbatim>\<open>func (l *List) move(e, at *Element) {
    if e == at { return }
    e.prev.next = e.next; e.next.prev = e.prev
    e.prev = at; e.next = at.next; e.prev.next = e; e.next.prev = e }\<close>
\<close>

definition move :: "addr \<Rightarrow> addr \<Rightarrow> ('k, 'v) store \<Rightarrow> error + ('k, 'v) store" where
  "move e at h =
     (if e = at then Inr h
      else
        and_then (set_next (prv (h e)) (nxt (h e)) h) (\<lambda>h1.
        and_then (set_prev (nxt (h1 e)) (prv (h1 e)) h1) (\<lambda>h2.
        let h3 = h2(e := (h2 e)\<lparr>prv := Some at\<rparr>);
            h4 = h3(e := (h3 e)\<lparr>nxt := nxt (h3 at)\<rparr>)
        in and_then (set_next (prv (h4 e)) (Some e) h4) (\<lambda>h5.
           set_prev (nxt (h5 e)) (Some e) h5))))"

text \<open>
  \<^verbatim>\<open>func (l *List) MoveToFront(e *Element) {
    if e.list != l || l.root.next == e { return }
    l.move(e, &l.root) }\<close>
  The receiver \<open>l\<close> is the field \<^verbatim>\<open>m.ll\<close>, which the tracker sets to nil when it
  stops: on a nil receiver the first test already returns for an element that still has
  its list, and \<^verbatim>\<open>l.root\<close> panics otherwise.
\<close>

definition MoveToFront :: "List option \<Rightarrow> addr \<Rightarrow> ('k, 'v) store \<Rightarrow> error + ('k, 'v) store" where
  "MoveToFront l e h =
     (case l of
        None \<Rightarrow> if lst (h e) then Inr h else Inl NilDeref
      | Some _ \<Rightarrow> if \<not> lst (h e) \<or> nxt (h root) = Some e then Inr h else move e root h)"

section \<open>The cache with the recency tracker (src/unnamed/part\_001)\<close>

text \<open>
  The struct \<^verbatim>\<open>Memoria\<close>. \<open>dict\<close> and \<open>ll\<close> are \<open>None\<close> once the tracker has set them
  to \<^verbatim>\<open>nil\<close>; \<open>ch\<close> is the buffered channel as a queue (oldest first), \<open>None\<close> when
  nil; \<open>done_ch\<close> tells whether the channel \<^verbatim>\<open>done\<close> has been closed; \<open>once\<close> tells
  whether the \<^verbatim>\<open>sync.Once\<close> has fired. \<open>store\<close> and \<open>fresh\<close> are the heap of list
  elements and its next unused address. The three variants of the struct in the
  repository extend one another: src/lru.go has the first fields, part\_002 adds the
  channels, part\_001 adds \<^verbatim>\<open>closed\<close> and \<^verbatim>\<open>once\<close>.
\<close>

record ('k, 'v) Memoria_lru =
  capacity :: int
  dict :: "('k \<rightharpoonup> addr) option"
  ll :: "List option"
  len :: int
  store :: "('k, 'v) store"
  fresh :: addr

record ('k, 'v) Memoria_ch = "('k, 'v) Memoria_lru" +
  ch :: "addr list option"
  done_ch :: bool

record ('k, 'v) Memoria = "('k, 'v) Memoria_ch" +
  closed :: bool
  once :: bool

abbreviation chan_cap :: nat where
  "chan_cap \<equiv> 1024"

text \<open>Reading a nil map finds nothing; deleting from it does nothing; writing to it panics.\<close>

definition lookup :: "('k \<rightharpoonup> addr) option \<Rightarrow> 'k \<Rightarrow> addr option" where
  "lookup d k = (case d of None \<Rightarrow> None | Some f \<Rightarrow> f k)"

text \<open>
  \<^verbatim>\<open>New\<close>, lines 33-48. \<^verbatim>\<open>list.New()\<close> is \<^verbatim>\<open>new(List).Init()\<close>; the channel has room
  for 1024 handles. \<^verbatim>\<open>go m.processEvents()\<close> starts the tracker, whose iterations are
  the steps \<open>processEvents\<close> below, taken between the calls.
\<close>

definition New :: "int \<Rightarrow> error + ('k, 'v) Memoria" where
  "New cap =
     (if cap \<le> 0 then Inl InvalidCapacity
      else let (h, l) = Init (\<lambda>_. zeroElement)
           in Inr \<lparr>capacity = cap, dict = Some Map.empty, ll = Some l, len = 0,
                   store = h, fresh = 1, ch = Some [], done_ch = False,
                   closed = False, once = False\<rparr>)"

text \<open>
  \<^verbatim>\<open>Get\<close>, lines 53-82. The \<^verbatim>\<open>select\<close> has a send case, a case on \<^verbatim>\<open>done\<close> and a
  default; when both the send and \<^verbatim>\<open>done\<close> are ready Go picks one of them at random,
  which the argument \<open>pick\<close> decides (true for the send). The lookup under the read
  lock and the \<^verbatim>\<open>select\<close> after it are one step here: the model runs the operations
  one after another. The zero value of \<^verbatim>\<open>V\<close> is the \<open>0\<close> of the value type.
\<close>

definition Get ::
  "bool \<Rightarrow> 'k \<Rightarrow> ('k, 'v::zero) Memoria \<Rightarrow> error + ('v \<times> bool) \<times> ('k, 'v) Memoria" where
  "Get pick k m =
     (if closed m then Inr ((0, False), m)
      else case lookup (dict m) k of
        None \<Rightarrow> Inr ((0, False), m)
      | Some ele \<Rightarrow>
          let can_send = (case ch m of None \<Rightarrow> False | Some q \<Rightarrow> length q < chan_cap)
          in if can_send \<and> (pick \<or> \<not> done_ch m) then
               (case Value (store m ele) of
                  None \<Rightarrow> Inl BadAssert
                | Some ent \<Rightarrow> Inr ((val ent, True), m\<lparr>ch := map_option (\<lambda>q. q @ [ele]) (ch m)\<rparr>))
             else if done_ch m then Inr ((0, False), m)
             else (case Value (store m ele) of
                     None \<Rightarrow> Inl BadAssert
                   | Some ent \<Rightarrow> Inr ((val ent, True), m)))"

text \<open>\<^verbatim>\<open>evict\<close>, lines 187-196 (the same text in all three variants).\<close>

definition evict :: "('k, 'v, 'z) Memoria_lru_scheme \<Rightarrow> error + ('k, 'v, 'z) Memoria_lru_scheme" where
  "evict m =
     (case ll m of
        None \<Rightarrow> Inl NilDeref
      | Some l \<Rightarrow>
          (case Back (store m) l of
             None \<Rightarrow> Inr m
           | Some ele \<Rightarrow>
               and_then (Remove ele (store m) l) (\<lambda>(v, h', l').
                 case v of
                   None \<Rightarrow> Inl BadAssert
                 | Some ent \<Rightarrow>
                     Inr (m\<lparr>store := h', ll := Some l',
                            dict := map_option (\<lambda>d. d(key ent := None)) (dict m),
                            len := len m - 1\<rparr>))))"

text \<open>\<^verbatim>\<open>Put\<close>, lines 87-112.\<close>

definition Put :: "'k \<Rightarrow> 'v \<Rightarrow> ('k, 'v) Memoria \<Rightarrow> error + ('k, 'v) Memoria" where
  "Put k v m =
     (if closed m then Inr m
      else case lookup (dict m) k of
        Some ele \<Rightarrow>
          and_then (MoveToFront (ll m) ele (store m)) (\<lambda>h.
            case Value (h ele) of
              None \<Rightarrow> Inl BadAssert
            | Some ent \<Rightarrow> Inr (m\<lparr>store := h(ele := (h ele)\<lparr>Value := Some (ent\<lparr>val := v\<rparr>)\<rparr>)\<rparr>))
      | None \<Rightarrow>
          (case ll m of
             None \<Rightarrow> Inl NilDeref
           | Some l \<Rightarrow>
               and_then (PushFront \<lparr>key = k, val = v\<rparr> (store m) l (fresh m)) (\<lambda>(ele, h, l', fr).
                 case dict m of
                   None \<Rightarrow> Inl NilMapWrite
                 | Some d \<Rightarrow>
                     let m1 = m\<lparr>store := h, ll := Some l', fresh := fr,
                                dict := Some (d(k \<mapsto> ele)), len := len m + 1\<rparr>
                     in if len m1 > capacity m1 then evict m1 else Inr m1)))"

text \<open>\<^verbatim>\<open>Clear\<close>, lines 115-126.\<close>

definition Clear :: "('k, 'v) Memoria \<Rightarrow> error + ('k, 'v) Memoria" where
  "Clear m =
     (if closed m then Inr m
      else case ll m of
        None \<Rightarrow> Inl NilDeref
      | Some l \<Rightarrow>
          let (h, l') = Init (store m)
          in Inr (m\<lparr>dict := Some Map.empty, store := h, ll := Some l', len := 0\<rparr>))"

text \<open>\<^verbatim>\<open>Len\<close>, lines 129-134.\<close>

definition Len :: "('k, 'v, 'z) Memoria_lru_scheme \<Rightarrow> int" where
  "Len m = len m"

text \<open>
  \<^verbatim>\<open>Keys\<close>, lines 138-152. The loop
  \<^verbatim>\<open>for e := m.ll.Back(); e != nil; e = e.Prev() { keys = append(keys, ent.key) }\<close>
  follows pointers and need not stop on an arbitrary store, so it is a partial
  function: \<open>None\<close> is a loop that never returns. The nil slice returned by a closed
  cache and the empty slice are both the empty list.
\<close>

partial_function (option) keys_loop ::
  "('k, 'v) store \<Rightarrow> addr option \<Rightarrow> 'k list \<Rightarrow> (error + 'k list) option" where
  "keys_loop h e keys =
     (case e of
        None \<Rightarrow> Some (Inr keys)
      | Some a \<Rightarrow>
          (case Value (h a) of
             None \<Rightarrow> Some (Inl BadAssert)
           | Some ent \<Rightarrow> keys_loop h (Prev h a) (keys @ [key ent])))"

definition Keys :: "('k, 'v) Memoria \<Rightarrow> (error + 'k list) option" where
  "Keys m =
     (if closed m then Some (Inr [])
      else case ll m of
        None \<Rightarrow> Some (Inl NilDeref)
      | Some l \<Rightarrow> keys_loop (store m) (Back (store m) l) [])"

text \<open>
  \<^verbatim>\<open>Close\<close>, lines 154-161: the body runs under \<^verbatim>\<open>m.once.Do\<close>; \<^verbatim>\<open>close(m.done)\<close>
  panics on a channel that is closed already.
\<close>

definition Close :: "('k, 'v) Memoria \<Rightarrow> error + ('k, 'v) Memoria" where
  "Close m =
     (if once m then Inr m
      else if done_ch m then Inl CloseOfClosed
      else Inr (m\<lparr>closed := True, done_ch := True, once := True\<rparr>))"

text \<open>
  \<^verbatim>\<open>processEvents\<close>, lines 163-183: one iteration of the tracker's loop. The first
  \<^verbatim>\<open>select\<close> case is ready when the queue holds an element, the second when \<^verbatim>\<open>done\<close>
  is closed; \<open>pick\<close> decides when both are (true for the receive). The result says
  whether the goroutine goes on (\<open>True\<close>) or has returned; with neither case ready the
  goroutine waits and the state stays as it is.
\<close>

definition processEvents :: "bool \<Rightarrow> ('k, 'v) Memoria \<Rightarrow> error + bool \<times> ('k, 'v) Memoria" where
  "processEvents pick m =
     (case (case ch m of Some (ele # q) \<Rightarrow> Some (ele, q) | _ \<Rightarrow> None) of
        Some (ele, q) \<Rightarrow>
          if pick \<or> \<not> done_ch m then
            (let m1 = m\<lparr>ch := Some q\<rparr>
             in if Prev (store m1) ele \<noteq> None then
                  and_then (MoveToFront (ll m1) ele (store m1)) (\<lambda>h. Inr (True, m1\<lparr>store := h\<rparr>))
                else Inr (True, m1))
          else Inr (False, m\<lparr>ch := None, dict := None, ll := None, len := 0\<rparr>)
      | None \<Rightarrow>
          if done_ch m then Inr (False, m\<lparr>ch := None, dict := None, ll := None, len := 0\<rparr>)
          else Inr (True, m))"

section \<open>The earlier variants\<close>

text \<open>
  src/unnamed/part\_002 has the tracker but neither \<^verbatim>\<open>closed\<close> nor \<^verbatim>\<open>once\<close>. Its
  \<^verbatim>\<open>New\<close> (lines 30-45) and \<^verbatim>\<open>Close\<close> (lines 153-156):
  \<^verbatim>\<open>func (m *Memoria[K, V]) Close() { close(m.done) }\<close>.
\<close>

definition New_ch :: "int \<Rightarrow> error + ('k, 'v) Memoria_ch" where
  "New_ch cap =
     (if cap \<le> 0 then Inl InvalidCapacity
      else let (h, l) = Init (\<lambda>_. zeroElement)
           in Inr \<lparr>capacity = cap, dict = Some Map.empty, ll = Some l, len = 0,
                   store = h, fresh = 1, ch = Some [], done_ch = False\<rparr>)"

definition Close_ch :: "('k, 'v) Memoria_ch \<Rightarrow> error + ('k, 'v) Memoria_ch" where
  "Close_ch m = (if done_ch m then Inl CloseOfClosed else Inr (m\<lparr>done_ch := True\<rparr>))"

text \<open>
  \<^verbatim>\<open>Get\<close> of part\_002 (lines 50-63) sends with \<^verbatim>\<open>m.ch <- ele\<close>, which waits while
  the queue is full (and for ever on a nil channel): \<open>None\<close> is a call that does not
  return in this state.
\<close>

definition Get_ch ::
  "'k \<Rightarrow> ('k, 'v::zero) Memoria_ch \<Rightarrow> (error + ('v \<times> bool) \<times> ('k, 'v) Memoria_ch) option" where
  "Get_ch k m =
     (case lookup (dict m) k of
        None \<Rightarrow> Some (Inr ((0, False), m))
      | Some ele \<Rightarrow>
          (case ch m of
             None \<Rightarrow> None
           | Some q \<Rightarrow>
               if length q < chan_cap then
                 (case Value (store m ele) of
                    None \<Rightarrow> Some (Inl BadAssert)
                  | Some ent \<Rightarrow> Some (Inr ((val ent, True), m\<lparr>ch := Some (q @ [ele])\<rparr>)))
               else None))"

text \<open>
  \<^verbatim>\<open>Put\<close> (lines 68-90), \<^verbatim>\<open>Clear\<close> (lines 93-100) and \<^verbatim>\<open>Keys\<close> (lines 125-135) of
  part\_002 are those of part\_001 without the test of \<^verbatim>\<open>m.closed\<close>.
\<close>

definition Put_ch :: "'k \<Rightarrow> 'v \<Rightarrow> ('k, 'v) Memoria_ch \<Rightarrow> error + ('k, 'v) Memoria_ch" where
  "Put_ch k v m =
     (case lookup (dict m) k of
        Some ele \<Rightarrow>
          and_then (MoveToFront (ll m) ele (store m)) (\<lambda>h.
            case Value (h ele) of
              None \<Rightarrow> Inl BadAssert
            | Some ent \<Rightarrow> Inr (m\<lparr>store := h(ele := (h ele)\<lparr>Value := Some (ent\<lparr>val := v\<rparr>)\<rparr>)\<rparr>))
      | None \<Rightarrow>
          (case ll m of
             None \<Rightarrow> Inl NilDeref
           | Some l \<Rightarrow>
               and_then (PushFront \<lparr>key = k, val = v\<rparr> (store m) l (fresh m)) (\<lambda>(ele, h, l', fr).
                 case dict m of
                   None \<Rightarrow> Inl NilMapWrite
                 | Some d \<Rightarrow>
                     let m1 = m\<lparr>store := h, ll := Some l', fresh := fr,
                                dict := Some (d(k \<mapsto> ele)), len := len m + 1\<rparr>
                     in if len m1 > capacity m1 then evict m1 else Inr m1)))"

definition Clear_ch :: "('k, 'v) Memoria_ch \<Rightarrow> error + ('k, 'v) Memoria_ch" where
  "Clear_ch m =
     (case ll m of
        None \<Rightarrow> Inl NilDeref
      | Some l \<Rightarrow>
          let (h, l') = Init (store m)
          in Inr (m\<lparr>dict := Some Map.empty, store := h, ll := Some l', len := 0\<rparr>))"

definition Keys_ch :: "('k, 'v) Memoria_ch \<Rightarrow> (error + 'k list) option" where
  "Keys_ch m =
     (case ll m of
        None \<Rightarrow> Some (Inl NilDeref)
      | Some l \<Rightarrow> keys_loop (store m) (Back (store m) l) [])"

text \<open>
  \<^verbatim>\<open>processEvents\<close> of part\_002 (lines 137-151): the first case is that of part\_001,
  the second one only returns.
\<close>

definition processEvents_ch :: "bool \<Rightarrow> ('k, 'v) Memoria_ch \<Rightarrow> error + bool \<times> ('k, 'v) Memoria_ch" where
  "processEvents_ch pick m =
     (case (case ch m of Some (ele # q) \<Rightarrow> Some (ele, q) | _ \<Rightarrow> None) of
        Some (ele, q) \<Rightarrow>
          if pick \<or> \<not> done_ch m then
            (let m1 = m\<lparr>ch := Some q\<rparr>
             in if Prev (store m1) ele \<noteq> None then
                  and_then (MoveToFront (ll m1) ele (store m1)) (\<lambda>h. Inr (True, m1\<lparr>store := h\<rparr>))
                else Inr (True, m1))
          else Inr (False, m)
      | None \<Rightarrow> if done_ch m then Inr (False, m) else Inr (True, m))"

text \<open>
  src/lru.go is the single-lock cache: \<^verbatim>\<open>New\<close> (lines 27-36), \<^verbatim>\<open>Get\<close> (lines 41-53),
  \<^verbatim>\<open>Put\<close> (lines 58-80) and \<^verbatim>\<open>Keys\<close> (lines 115-125). \<^verbatim>\<open>Get\<close> moves the element
  it finds to the front itself.
\<close>

definition New_lru :: "int \<Rightarrow> error + ('k, 'v) Memoria_lru" where
  "New_lru cap =
     (if cap \<le> 0 then Inl InvalidCapacity
      else let (h, l) = Init (\<lambda>_. zeroElement)
           in Inr \<lparr>capacity = cap, dict = Some Map.empty, ll = Some l, len = 0,
                   store = h, fresh = 1\<rparr>)"

definition Get_lru ::
  "'k \<Rightarrow> ('k, 'v::zero) Memoria_lru \<Rightarrow> error + ('v \<times> bool) \<times> ('k, 'v) Memoria_lru" where
  "Get_lru k m =
     (case lookup (dict m) k of
        Some ele \<Rightarrow>
          and_then (MoveToFront (ll m) ele (store m)) (\<lambda>h.
            case Value (h ele) of
              None \<Rightarrow> Inl BadAssert
            | Some ent \<Rightarrow> Inr ((val ent, True), m\<lparr>store := h\<rparr>))
      | None \<Rightarrow> Inr ((0, False), m))"

definition Put_lru :: "'k \<Rightarrow> 'v \<Rightarrow> ('k, 'v) Memoria_lru \<Rightarrow> error + ('k, 'v) Memoria_lru" where
  "Put_lru k v m =
     (case lookup (dict m) k of
        Some ele \<Rightarrow>
          and_then (MoveToFront (ll m) ele (store m)) (\<lambda>h.
            case Value (h ele) of
              None \<Rightarrow> Inl BadAssert
            | Some ent \<Rightarrow> Inr (m\<lparr>store := h(ele := (h ele)\<lparr>Value := Some (ent\<lparr>val := v\<rparr>)\<rparr>)\<rparr>))
      | None \<Rightarrow>
          (case ll m of
             None \<Rightarrow> Inl NilDeref
           | Some l \<Rightarrow>
               and_then (PushFront \<lparr>key = k, val = v\<rparr> (store m) l (fresh m)) (\<lambda>(ele, h, l', fr).
                 case dict m of
                   None \<Rightarrow> Inl NilMapWrite
                 | Some d \<Rightarrow>
                     let m1 = m\<lparr>store := h, ll := Some l', fresh := fr,
                                dict := Some (d(k \<mapsto> ele)), len := len m + 1\<rparr>
                     in if len m1 > capacity m1 then evict m1 else Inr m1)))"

definition Keys_lru :: "('k, 'v) Memoria_lru \<Rightarrow> (error + 'k list) option" where
  "Keys_lru m =
     (case ll m of
        None \<Rightarrow> Some (Inl NilDeref)
      | Some l \<Rightarrow> keys_loop (store m) (Back (store m) l) [])"

section \<open>Sequences of calls and the states used as examples\<close>

text \<open>A run of \<^verbatim>\<open>Put\<close> calls, in order, that stops at the first panic.\<close>

fun Puts :: "('k \<times> 'v) list \<Rightarrow> ('k, 'v) Memoria \<Rightarrow> error + ('k, 'v) Memoria" where
  "Puts [] m = Inr m"
| "Puts ((k, v) # kvs) m = and_then (Put k v m) (Puts kvs)"

text \<open>A run of \<open>n\<close> calls \<^verbatim>\<open>Get(k)\<close> with no step of the tracker in between.\<close>

fun Gets :: "nat \<Rightarrow> 'k \<Rightarrow> ('k, 'v::zero) Memoria \<Rightarrow> error + ('k, 'v) Memoria" where
  "Gets 0 k m = Inr m"
| "Gets (Suc n) k m = and_then (Gets n k m) (\<lambda>m1. and_then (Get True k m1) (\<lambda>(r, m2). Inr m2))"

text \<open>
  The states below are reached by the operations themselves. \<open>demo\<close> is a cache of
  capacity 2 after \<^verbatim>\<open>Put("a", 1); Put("b", 2)\<close>; \<open>demo_full\<close> is \<open>demo\<close> with a full
  event queue, as 1024 calls \<^verbatim>\<open>Get("a")\<close> leave it (\<open>demo_full_run\<close>); \<open>demo_closed\<close>
  is \<open>demo\<close> after \<^verbatim>\<open>Close()\<close>.
\<close>

definition demo :: "(string, int) Memoria" where
  "demo = projr (and_then (New 2) (Puts [(''a'', 1), (''b'', 2)]))"

definition demo_full :: "(string, int) Memoria" where
  "demo_full = demo\<lparr>ch := Some (replicate chan_cap 1)\<rparr>"

definition demo_closed :: "(string, int) Memoria" where
  "demo_closed = projr (Close demo)"

text \<open>
  \<open>stale_before\<close>: capacity 2, \<^verbatim>\<open>Put("a", 1); Put("b", 2); Get("a"); Clear()\<close>, the event
  of the \<^verbatim>\<open>Get\<close> still queued. \<open>stale_after\<close>: the tracker has then processed that
  event. \<open>overfull\<close>: three more keys have been put after that.
\<close>

definition stale_before :: "(string, int) Memoria" where
  "stale_before =
     projr (and_then (and_then (and_then (New 2) (Puts [(''a'', 1), (''b'', 2)]))
              (\<lambda>m. and_then (Get True ''a'' m) (\<lambda>(r, m'). Inr m'))) Clear)"

definition stale_after :: "(string, int) Memoria" where
  "stale_after = snd (projr (processEvents True stale_before))"

definition overfull :: "(string, int) Memoria" where
  "overfull = projr (Puts [(''c'', 3), (''d'', 4), (''e'', 5)] stale_after)"

text \<open>The same calls, up to the tracker's step, on the cache of part\_002.\<close>

definition stale_before_ch :: "(string, int) Memoria_ch" where
  "stale_before_ch =
     projr (and_then (and_then (and_then (and_then (New_ch 2) (Put_ch ''a'' 1)) (Put_ch ''b'' 2))
                        (\<lambda>m. and_then (the (Get_ch ''a'' m)) (\<lambda>(r, m'). Inr m'))) Clear_ch)"

definition stale_after_ch :: "(string, int) Memoria_ch" where
  "stale_after_ch = snd (projr (processEvents_ch True stale_before_ch))"

text \<open>
  \<open>touched\<close>: capacity 3, \<^verbatim>\<open>Put("a", 1); Put("b", 2); Put("c", 3); Get("a")\<close>;
  \<open>drained\<close>: the tracker has processed the event of that \<^verbatim>\<open>Get\<close>.
\<close>

definition touched :: "(string, int) Memoria" where
  "touched =
     snd (projr (and_then (and_then (New 3) (Puts [(''a'', 1), (''b'', 2), (''c'', 3)]))
                   (Get True ''a'')))"

definition drained :: "(string, int) Memoria" where
  "drained = snd (projr (processEvents True touched))"

text \<open>
  \<open>dropped\<close>: capacity 3, \<^verbatim>\<open>Put("a", 1); Put("b", 2); Put("c", 3); Get("a"); Get("b");
  Clear()\<close>, the events of the two \<^verbatim>\<open>Get\<close> calls still queued. \<open>relinked\<close>: the tracker
  has then processed both events. \<open>shadowed\<close> is \<open>relinked\<close> after \<^verbatim>\<open>Put("d", 4)\<close> and
  \<open>reput\<close> is \<open>shadowed\<close> after \<^verbatim>\<open>Put("d", 5)\<close>. \<open>hollow\<close> is \<open>relinked\<close> after
  \<^verbatim>\<open>Put("d", 4); Put("e", 5); Put("f", 6); Put("g", 7)\<close> and \<open>selfevicted\<close> is \<open>hollow\<close>
  after \<^verbatim>\<open>Put("h", 8)\<close>.
\<close>

definition dropped :: "(string, int) Memoria" where
  "dropped =
     projr (and_then (and_then (and_then (New 3) (Puts [(''a'', 1), (''b'', 2), (''c'', 3)]))
              (\<lambda>m. and_then (Get True ''a'' m)
                     (\<lambda>(r, m1). and_then (Get True ''b'' m1) (\<lambda>(r, m2). Inr m2)))) Clear)"

definition relinked :: "(string, int) Memoria" where
  "relinked =
     snd (projr (and_then (processEvents True dropped) (\<lambda>(r, m). processEvents True m)))"

definition shadowed :: "(string, int) Memoria" where
  "shadowed = projr (Put ''d'' 4 relinked)"

definition reput :: "(string, int) Memoria" where
  "reput = projr (Put ''d'' 5 shadowed)"

definition hollow :: "(string, int) Memoria" where
  "hollow = projr (Puts [(''d'', 4), (''e'', 5), (''f'', 6), (''g'', 7)] relinked)"

definition selfevicted :: "(string, int) Memoria" where
  "selfevicted = projr (Put ''h'' 8 hollow)"

text \<open>The same two \<^verbatim>\<open>Put\<close> calls on the cache of src/lru.go, and the state after \<^verbatim>\<open>Get("a")\<close>.\<close>

definition demo_lru :: "(string, int) Memoria_lru" where
  "demo_lru = projr (and_then (and_then (New_lru 2) (Put_lru ''a'' 1)) (Put_lru ''b'' 2))"

definition demo_lru_got :: "(string, int) Memoria_lru" where
  "demo_lru_got = snd (projr (Get_lru ''a'' demo_lru))"

section \<open>The shape of the list in the store\<close>

text \<open>
  \<open>link h a b\<close>: \<open>b\<close> follows \<open>a\<close>, in both directions. \<open>linked h cs\<close>: every two
  neighbours of \<open>cs\<close> are linked. \<open>ring h xs\<close>: the store holds the circular list whose
  elements, front to back, are \<open>xs\<close>, between two visits of the sentinel.
\<close>

definition link :: "('k, 'v) store \<Rightarrow> addr \<Rightarrow> addr \<Rightarrow> bool" where
  "link h a b = (nxt (h a) = Some b \<and> prv (h b) = Some a)"

fun linked :: "('k, 'v) store \<Rightarrow> addr list \<Rightarrow> bool" where
  "linked h (a # b # cs) = (link h a b \<and> linked h (b # cs))"
| "linked h cs = True"

definition ring :: "('k, 'v) store \<Rightarrow> addr list \<Rightarrow> bool" where
  "ring h xs = (linked h (root # xs @ [root]) \<and> distinct (root # xs) \<and> (\<forall>a\<in>set xs. lst (h a)))"

text \<open>
  \<^verbatim>\<open>remove\<close> and \<^verbatim>\<open>move\<close> start with the same two assignments (\<open>unlink\<close>), and
  \<^verbatim>\<open>insert\<close> and \<^verbatim>\<open>move\<close> end with the same four (\<open>link_in\<close>); the proofs treat each
  half once. \<open>same_payload\<close>: two stores differ in links only.
\<close>

definition unlink :: "addr \<Rightarrow> ('k, 'v) store \<Rightarrow> error + ('k, 'v) store" where
  "unlink e h =
     and_then (set_next (prv (h e)) (nxt (h e)) h) (\<lambda>h1. set_prev (nxt (h1 e)) (prv (h1 e)) h1)"

definition link_in :: "addr \<Rightarrow> addr \<Rightarrow> ('k, 'v) store \<Rightarrow> error + ('k, 'v) store" where
  "link_in e at h =
     (let h3 = h(e := (h e)\<lparr>prv := Some at\<rparr>);
          h4 = h3(e := (h3 e)\<lparr>nxt := nxt (h3 at)\<rparr>)
      in and_then (set_next (prv (h4 e)) (Some e) h4) (\<lambda>h5. set_prev (nxt (h5 e)) (Some e) h5))"

definition same_payload :: "('k, 'v) store \<Rightarrow> ('k, 'v) store \<Rightarrow> bool" where
  "same_payload h h' = (\<forall>b. lst (h' b) = lst (h b) \<and> Value (h' b) = Value (h b))"

text \<open>
  The invariant of an open cache, for the list \<open>xs\<close> of its elements from the most to
  the least recently used: the store holds that list, every element carries an entry
  and is the index's value for its key, the index has no other key, and both lengths
  are the length of \<open>xs\<close>. \<open>cache_inv\<close> adds the bound by the capacity, which \<^verbatim>\<open>Put\<close>
  exceeds for a moment before it evicts.
\<close>

definition ent_at :: "('k, 'v) store \<Rightarrow> addr \<Rightarrow> ('k, 'v) entry" where
  "ent_at h a = the (Value (h a))"

definition key_at :: "('k, 'v) store \<Rightarrow> addr \<Rightarrow> 'k" where
  "key_at h a = key (ent_at h a)"

definition cache_wf :: "('k, 'v) Memoria \<Rightarrow> addr list \<Rightarrow> bool" where
  "cache_wf m xs =
     (\<not> closed m \<and> \<not> done_ch m \<and> ring (store m) xs \<and> 0 < fresh m \<and>
      (\<forall>a\<in>set xs. a < fresh m \<and> Value (store m a) \<noteq> None \<and>
                    lookup (dict m) (key_at (store m) a) = Some a) \<and>
      (case dict m of None \<Rightarrow> False | Some d \<Rightarrow> dom d = key_at (store m) ` set xs) \<and>
      ll m = Some \<lparr>llen = int (length xs)\<rparr> \<and> len m = int (length xs) \<and>
      0 < capacity m)"

definition cache_inv :: "('k, 'v) Memoria \<Rightarrow> addr list \<Rightarrow> bool" where
  "cache_inv m xs = (cache_wf m xs \<and> len m \<le> capacity m)"

text \<open>
  \<open>queue_ok\<close>: every queued handle is an element of the list or an element that was
  removed from it (its \<^verbatim>\<open>list\<close> field is nil). \<open>reach\<close>: the states of an open cache
  that \<^verbatim>\<open>New\<close>, \<^verbatim>\<open>Put\<close>, \<^verbatim>\<open>Get\<close> and the tracker's step produce, together with
  \<^verbatim>\<open>Clear\<close> called when the event queue is empty.
\<close>

definition queue_ok :: "('k, 'v) Memoria \<Rightarrow> addr list \<Rightarrow> bool" where
  "queue_ok m xs =
     (case ch m of None \<Rightarrow> False
      | Some q \<Rightarrow> \<forall>e\<in>set q. e \<in> set xs \<or> \<not> lst (store m e))"

inductive reach :: "('k, 'v::zero) Memoria \<Rightarrow> bool" where
  reach_New: "New c = Inr m \<Longrightarrow> reach m"
| reach_Put: "reach m \<Longrightarrow> Put k v m = Inr m' \<Longrightarrow> reach m'"
| reach_Get: "reach m \<Longrightarrow> Get pick k m = Inr (r, m') \<Longrightarrow> reach m'"
| reach_Clear: "reach m \<Longrightarrow> ch m = Some [] \<Longrightarrow> Clear m = Inr m' \<Longrightarrow> reach m'"
| reach_Tracker: "reach m \<Longrightarrow> processEvents pick m = Inr (b, m') \<Longrightarrow> reach m'"

text \<open>The three lifecycle flags agree: \<^verbatim>\<open>Close\<close> is the only code that sets them, all at once.\<close>

definition lifecycle_ok :: "('k, 'v) Memoria \<Rightarrow> bool" where
  "lifecycle_ok m = (once m = closed m \<and> done_ch m = closed m)"

section \<open>Evaluation\<close>

lemmas exec_defs = New_def Init_def Put_def PushFront_def insert_at_def set_next_def set_prev_def
  lookup_def evict_def Back_def Remove_def remove_elem_def MoveToFront_def move_def
  zeroElement_def Let_def Get_def Clear_def processEvents_def Prev_def Keys_def Close_def Len_def

lemmas exec_lru = New_lru_def Put_lru_def Get_lru_def Keys_lru_def New_ch_def Close_ch_def

lemmas exec_ch = Get_ch_def Put_ch_def Clear_ch_def processEvents_ch_def Keys_ch_def

lemma and_then_Inr [simp]: "and_then (Inr x) f = f x"
  by (simp add: and_then_def)

lemma and_then_Inl [simp]: "and_then (Inl e) f = Inl e"
  by (simp add: and_then_def)

section \<open>Links\<close>

lemma linked_append: "linked h (as @ b # cs) = (linked h (as @ [b]) \<and> linked h (b # cs))"
  by (induction h as rule: linked.induct) auto

lemma linked_frame:
  "\<forall>x\<in>set (butlast cs). nxt (h' x) = nxt (h x) \<Longrightarrow>
   \<forall>y\<in>set (tl cs). prv (h' y) = prv (h y) \<Longrightarrow> linked h' cs = linked h cs"
  by (induction h cs rule: linked.induct) (auto simp: link_def)

lemma linked_tl: "linked h (a # cs) \<Longrightarrow> linked h cs"
  by (cases cs) auto

lemma linked_prv: "linked h (us @ p # a # vs) \<Longrightarrow> prv (h a) = Some p"
  using linked_append[of h us p "a # vs"] by (simp add: link_def)

lemma unlink_mid:
  assumes "linked h (us @ p # a # n # vs)"
    and "a \<noteq> p" "a \<noteq> n"
  shows "\<exists>h'. unlink a h = Inr h' \<and> same_payload h h' \<and> nxt (h' p) = Some n \<and> prv (h' n) = Some p
     \<and> (\<forall>x. x \<noteq> p \<longrightarrow> nxt (h' x) = nxt (h x)) \<and> (\<forall>x. x \<noteq> n \<longrightarrow> prv (h' x) = prv (h x))"
proof -
  from assms(1) have "linked h (p # a # n # vs)"
    using linked_append[of h us p "a # n # vs"] by simp
  then have "link h p a" "link h a n"
    by simp_all
  then show ?thesis using assms(2,3)
    by (auto simp: unlink_def set_next_def set_prev_def and_then_def link_def same_payload_def)
qed

lemma link_in_front:
  assumes "nxt (h at) = Some f" "a \<noteq> at" "a \<noteq> f"
  shows "\<exists>h'. link_in a at h = Inr h' \<and> (\<forall>b. b \<noteq> a \<longrightarrow> lst (h' b) = lst (h b) \<and> Value (h' b) = Value (h b))
     \<and> lst (h' a) = lst (h a) \<and> Value (h' a) = Value (h a)
     \<and> link h' at a \<and> link h' a f
     \<and> (\<forall>x. x \<noteq> at \<longrightarrow> x \<noteq> a \<longrightarrow> nxt (h' x) = nxt (h x)) \<and> (\<forall>x. x \<noteq> f \<longrightarrow> x \<noteq> a \<longrightarrow> prv (h' x) = prv (h x))"
  using assms
  by (auto simp: link_in_def set_next_def set_prev_def and_then_def link_def Let_def)

lemma unlink_linked:
  assumes L: "linked h (us @ p # a # n # vs)"
    and ne: "a \<noteq> p" "a \<noteq> n"
    and d: "p \<notin> set us" "n \<notin> set vs" "n \<notin> set (tl (us @ [p]))" "p \<notin> set (butlast (n # vs))"
  shows "\<exists>h'. unlink a h = Inr h' \<and> same_payload h h' \<and> linked h' (us @ p # n # vs)"
proof -
  from unlink_mid[OF L ne] obtain h' where h':
    "unlink a h = Inr h'" "same_payload h h'" "nxt (h' p) = Some n" "prv (h' n) = Some p"
    "\<forall>x. x \<noteq> p \<longrightarrow> nxt (h' x) = nxt (h x)" "\<forall>x. x \<noteq> n \<longrightarrow> prv (h' x) = prv (h x)"
    by blast
  from L have L1: "linked h (us @ [p])" and L2: "linked h (n # vs)"
    using linked_append[of h us p "a # n # vs"] linked_tl[of h p "a # n # vs"] linked_tl[of h a "n # vs"]
    by auto
  have "linked h' (us @ [p]) = linked h (us @ [p])"
    using h'(5,6) d by (intro linked_frame) auto
  moreover have "linked h' (n # vs) = linked h (n # vs)"
    using h'(5,6) d by (intro linked_frame) auto
  moreover have "link h' p n"
    using h'(3,4) by (simp add: link_def)
  ultimately have "linked h' (us @ p # n # vs)"
    using L1 L2 linked_append[of h' us p "n # vs"] by simp
  with h'(1,2) show ?thesis by blast
qed

lemma unlink_ring:
  assumes L: "linked h (root # ys @ a # zs @ [root])"
    and D: "distinct (root # ys @ a # zs)"
  shows "\<exists>h'. unlink a h = Inr h' \<and> same_payload h h' \<and> linked h' (root # ys @ zs @ [root])"
proof (cases ys rule: rev_cases)
  case Nil
  show ?thesis
  proof (cases zs)
    case Nil
    with \<open>ys = []\<close> L D unlink_linked[of h "[]" root a root "[]"] show ?thesis by simp
  next
    case (Cons n zs')
    with \<open>ys = []\<close> L D unlink_linked[of h "[]" root a n "zs' @ [root]"] show ?thesis
      by (auto simp: butlast_append)
  qed
next
  case (snoc ys' p)
  show ?thesis
  proof (cases zs)
    case Nil
    with snoc L D unlink_linked[of h "root # ys'" p a root "[]"] show ?thesis by auto
  next
    case (Cons n zs')
    with snoc L D unlink_linked[of h "root # ys'" p a n "zs' @ [root]"] show ?thesis
      by (auto simp: butlast_append)
  qed
qed

lemma link_in_ring:
  assumes L: "linked h (root # xs @ [root])"
    and D: "distinct (root # xs)" "a \<notin> set xs" "a \<noteq> root"
  shows "\<exists>h'. link_in a root h = Inr h' \<and> linked h' (root # a # xs @ [root])
     \<and> (\<forall>b. lst (h' b) = lst (h b) \<and> Value (h' b) = Value (h b))"
proof -
  obtain f vs where fv: "xs @ [root] = f # vs"
    by (cases xs) auto
  with L have nf: "nxt (h root) = Some f" and L': "linked h (f # vs)"
    by (auto simp: link_def)
  have af: "a \<noteq> f" using fv D by (cases xs) auto
  from link_in_front[of h root f a, OF nf D(3) af] obtain h' where h':
    "link_in a root h = Inr h'"
    "\<forall>b. b \<noteq> a \<longrightarrow> lst (h' b) = lst (h b) \<and> Value (h' b) = Value (h b)"
    "lst (h' a) = lst (h a)" "Value (h' a) = Value (h a)"
    "link h' root a" "link h' a f"
    "\<forall>x. x \<noteq> root \<longrightarrow> x \<noteq> a \<longrightarrow> nxt (h' x) = nxt (h x)"
    "\<forall>x. x \<noteq> f \<longrightarrow> x \<noteq> a \<longrightarrow> prv (h' x) = prv (h x)"
    by blast
  have dv: "f \<notin> set vs" "a \<notin> set vs" "root \<notin> set (butlast (f # vs))" "a \<notin> set (butlast (f # vs))"
    using fv D by (cases xs; auto simp: butlast_append)+
  have "linked h' (f # vs) = linked h (f # vs)"
  proof (intro linked_frame ballI)
    fix x assume "x \<in> set (butlast (f # vs))"
    with dv(3,4) have "x \<noteq> root" "x \<noteq> a" by metis+
    with h'(7) show "nxt (h' x) = nxt (h x)" by simp
  next
    fix y assume "y \<in> set (tl (f # vs))"
    with dv have "y \<noteq> f" "y \<noteq> a" by auto
    with h'(8) show "prv (h' y) = prv (h y)" by simp
  qed
  with L' h'(5,6) fv have "linked h' (root # a # xs @ [root])" by simp
  moreover have "\<forall>b. lst (h' b) = lst (h b) \<and> Value (h' b) = Value (h b)"
    using h'(2,3,4) by metis
  ultimately show ?thesis using h'(1) by blast
qed

section \<open>The list operations on a ring\<close>

lemma move_unfold: "a \<noteq> at \<Longrightarrow> move a at h = and_then (unlink a h) (link_in a at)"
  by (simp add: move_def unlink_def link_in_def and_then_def Let_def split: sum.splits)

lemma insert_at_unfold:
  "insert_at e at h l =
     and_then (link_in e at h) (\<lambda>h4. Inr (h4(e := (h4 e)\<lparr>lst := True\<rparr>), l\<lparr>llen := llen l + 1\<rparr>))"
  by (simp add: insert_at_def link_in_def and_then_def Let_def split: sum.splits)

lemma remove_elem_unfold:
  "remove_elem e h l =
     and_then (unlink e h) (\<lambda>h2.
       Inr (h2(e := (h2 e)\<lparr>nxt := None, prv := None, lst := False\<rparr>), l\<lparr>llen := llen l - 1\<rparr>))"
  by (simp add: remove_elem_def unlink_def and_then_def split: sum.splits)

lemma ring_head: "ring h xs \<Longrightarrow> nxt (h root) = Some (hd (xs @ [root]))"
  by (cases xs) (auto simp: ring_def link_def)

lemma ring_last: "ring h xs \<Longrightarrow> prv (h root) = Some (last (root # xs))"
proof (cases xs rule: rev_cases)
  case Nil
  assume "ring h xs" with Nil show ?thesis by (simp add: ring_def link_def)
next
  case (snoc ys y)
  assume "ring h xs"
  with snoc have "linked h ((root # ys) @ y # [root])" by (simp add: ring_def)
  then have "linked h [y, root]" using linked_append[of h "root # ys" y "[root]"] by simp
  with snoc show ?thesis by (simp add: link_def)
qed

lemma ring_prv:
  assumes R: "ring h (ys @ a # zs)"
  shows "prv (h a) = Some (last (root # ys))"
proof (cases ys rule: rev_cases)
  case Nil
  with R have "linked h ([] @ root # a # zs @ [root])" by (simp add: ring_def)
  from linked_prv[OF this] Nil show ?thesis by simp
next
  case (snoc ys' y)
  with R have "linked h ((root # ys') @ y # a # zs @ [root])" by (simp add: ring_def)
  from linked_prv[OF this] snoc show ?thesis by simp
qed

lemma ring_prv_root:
  assumes R: "ring h xs" and a: "a \<in> set xs" and p: "Prev h a = None"
  shows "nxt (h root) = Some a"
proof -
  from a obtain ys zs where xs: "xs = ys @ a # zs" by (meson split_list)
  from R xs have la: "lst (h a)" and nr: "root \<notin> set ys" by (auto simp: ring_def)
  from R xs have pa: "prv (h a) = Some (last (root # ys))" using ring_prv[of h ys a zs] by simp
  have "ys = []"
  proof (rule ccontr)
    assume ne: "ys \<noteq> []"
    then have "last ys \<in> set ys" by simp
    with nr have "last ys \<noteq> root" by metis
    with pa la ne p show False by (simp add: Prev_def)
  qed
  with R xs show ?thesis by (simp add: ring_head)
qed

lemma ring_payload:
  assumes "ring h xs" "\<forall>b. nxt (h' b) = nxt (h b) \<and> prv (h' b) = prv (h b) \<and> lst (h' b) = lst (h b)"
  shows "ring h' xs"
proof -
  have "linked h' (root # xs @ [root]) = linked h (root # xs @ [root])"
    using assms(2) by (intro linked_frame) auto
  with assms show ?thesis by (simp add: ring_def)
qed

lemma MoveToFront_payload: "MoveToFront l e h = Inr h' \<Longrightarrow> same_payload h h'"
  by (auto simp: MoveToFront_def move_def set_next_def set_prev_def and_then_def same_payload_def Let_def
      split: option.splits if_splits sum.splits)

lemma MoveToFront_ring:
  assumes R: "ring h xs" and a: "a \<in> set xs"
  shows "\<exists>h'. MoveToFront (Some l) a h = Inr h' \<and> ring h' (a # remove1 a xs) \<and> same_payload h h'"
proof -
  from a obtain ys zs where xs: "xs = ys @ a # zs" by (meson split_list)
  from R xs have D: "distinct (root # ys @ a # zs)" and ne: "a \<noteq> root"
    and L: "linked h (root # ys @ a # zs @ [root])" and la: "lst (h a)"
    by (auto simp: ring_def)
  from D have rem: "remove1 a xs = ys @ zs"
    using xs by (simp add: remove1_append)
  show ?thesis
  proof (cases ys)
    case Nil
    with R xs have "nxt (h root) = Some a" by (simp add: ring_head)
    then have "MoveToFront (Some l) a h = Inr h" by (simp add: MoveToFront_def)
    moreover have "ring h (a # remove1 a xs)" using R xs Nil by simp
    ultimately show ?thesis by (simp add: same_payload_def)
  next
    case (Cons f ys')
    with R xs have "nxt (h root) = Some f" by (simp add: ring_head)
    moreover have "f \<noteq> a" using D Cons by auto
    ultimately have M: "MoveToFront (Some l) a h = and_then (unlink a h) (link_in a root)"
      using la ne by (simp add: MoveToFront_def move_unfold)
    from unlink_ring[OF L D] obtain h1 where h1:
      "unlink a h = Inr h1" "same_payload h h1" "linked h1 (root # (ys @ zs) @ [root])"
      by auto
    have D1: "distinct (root # (ys @ zs))" "a \<notin> set (ys @ zs)" using D by auto
    from link_in_ring[OF h1(3) D1 ne] obtain h2 where h2:
      "link_in a root h1 = Inr h2" "linked h2 (root # a # (ys @ zs) @ [root])"
      "\<forall>b. lst (h2 b) = lst (h1 b) \<and> Value (h2 b) = Value (h1 b)"
      by blast
    have sp: "same_payload h h2" using h1(2) h2(3) by (simp add: same_payload_def)
    have "ring h2 (a # ys @ zs)"
      using h2(2) D R xs sp by (auto simp: ring_def same_payload_def)
    with M h1(1) h2(1) sp rem show ?thesis by (simp add: and_then_def)
  qed
qed

lemma PushFront_ring:
  assumes R: "ring h xs" and fr: "fr \<notin> set xs" "fr \<noteq> root"
  shows "\<exists>h'. PushFront e h l fr = Inr (fr, h', l\<lparr>llen := llen l + 1\<rparr>, Suc fr)
     \<and> ring h' (fr # xs) \<and> Value (h' fr) = Some e
     \<and> (\<forall>b. b \<noteq> fr \<longrightarrow> Value (h' b) = Value (h b))
     \<and> (\<forall>b. b \<noteq> fr \<longrightarrow> lst (h' b) = lst (h b))"
proof -
  let ?h1 = "h(fr := zeroElement\<lparr>Value := Some e\<rparr>)"
  from R have nn: "nxt (h root) = Some (hd (xs @ [root]))" by (rule ring_head)
  have "linked ?h1 (root # xs @ [root]) = linked h (root # xs @ [root])"
    using fr by (intro linked_frame) (auto simp: butlast_append)
  with R have L1: "linked ?h1 (root # xs @ [root])" and D: "distinct (root # xs)"
    by (simp_all add: ring_def)
  from link_in_ring[OF L1 D fr] obtain h2 where h2:
    "link_in fr root ?h1 = Inr h2" "linked h2 (root # fr # xs @ [root])"
    "\<forall>b. lst (h2 b) = lst (?h1 b) \<and> Value (h2 b) = Value (?h1 b)"
    by blast
  let ?h3 = "h2(fr := (h2 fr)\<lparr>lst := True\<rparr>)"
  have "linked ?h3 (root # fr # xs @ [root]) = linked h2 (root # fr # xs @ [root])"
    by (intro linked_frame) auto
  with h2(2) have L3: "linked ?h3 (root # fr # xs @ [root])" by simp
  have "ring ?h3 (fr # xs)"
    using L3 D fr R h2(3) by (auto simp: ring_def)
  moreover have "PushFront e h l fr = Inr (fr, ?h3, l\<lparr>llen := llen l + 1\<rparr>, Suc fr)"
    using nn h2(1) by (simp add: PushFront_def insert_at_unfold and_then_def)
  moreover have "Value (?h3 fr) = Some e" "\<forall>b. b \<noteq> fr \<longrightarrow> Value (?h3 b) = Value (h b)"
    "\<forall>b. b \<noteq> fr \<longrightarrow> lst (?h3 b) = lst (h b)"
    using h2(3) by simp_all
  ultimately show ?thesis by blast
qed

lemma Remove_last_ring:
  assumes R: "ring h (ys @ [a])"
  shows "\<exists>h'. Remove a h l = Inr (Value (h a), h', l\<lparr>llen := llen l - 1\<rparr>) \<and> ring h' ys
     \<and> (\<forall>b. Value (h' b) = Value (h b)) \<and> \<not> lst (h' a)
     \<and> (\<forall>b. b \<noteq> a \<longrightarrow> lst (h' b) = lst (h b))"
proof -
  from R have L: "linked h (root # ys @ a # [] @ [root])" and D: "distinct (root # ys @ a # [])"
    and la: "lst (h a)" and ly: "\<forall>b\<in>set ys. lst (h b)"
    by (auto simp: ring_def)
  from unlink_ring[OF L D] obtain h1 where h1:
    "unlink a h = Inr h1" "same_payload h h1" "linked h1 (root # ys @ [root])"
    by auto
  let ?h2 = "h1(a := (h1 a)\<lparr>nxt := None, prv := None, lst := False\<rparr>)"
  have "linked ?h2 (root # ys @ [root]) = linked h1 (root # ys @ [root])"
    using D by (intro linked_frame) (auto simp: butlast_append)
  with h1(3) have "linked ?h2 (root # ys @ [root])" by simp
  then have "ring ?h2 ys"
    using D ly h1(2) by (auto simp: ring_def same_payload_def)
  moreover have "Remove a h l = Inr (Value (h a), ?h2, l\<lparr>llen := llen l - 1\<rparr>)"
    using la h1(1,2) by (simp add: Remove_def remove_elem_unfold and_then_def same_payload_def)
  moreover have "\<forall>b. Value (?h2 b) = Value (h b)" "\<not> lst (?h2 a)"
    "\<forall>b. b \<noteq> a \<longrightarrow> lst (?h2 b) = lst (h b)"
    using h1(2) by (simp_all add: same_payload_def)
  ultimately show ?thesis by blast
qed

section \<open>The cache operations keep the invariant\<close>

lemma New_inv: "0 < c \<Longrightarrow> \<exists>m. New c = Inr m \<and> cache_inv m [] \<and> capacity m = c \<and> len m = 0"
  by (simp add: New_def Init_def cache_inv_def cache_wf_def ring_def link_def lookup_def)

lemma wf_lookup_iff:
  assumes "cache_wf m xs"
  shows "lookup (dict m) k = Some a \<longleftrightarrow> a \<in> set xs \<and> key_at (store m) a = k"
proof
  assume A: "lookup (dict m) k = Some a"
  from assms obtain d where d: "dict m = Some d" "dom d = key_at (store m) ` set xs"
    by (auto simp: cache_wf_def split: option.splits)
  from A d have "k \<in> dom d" by (auto simp: lookup_def)
  with d obtain b where b: "b \<in> set xs" "key_at (store m) b = k" by auto
  with assms have "lookup (dict m) k = Some b" by (auto simp: cache_wf_def)
  with A b show "a \<in> set xs \<and> key_at (store m) a = k" by simp
next
  assume "a \<in> set xs \<and> key_at (store m) a = k"
  with assms show "lookup (dict m) k = Some a" by (auto simp: cache_wf_def)
qed

lemma wf_lookup_None:
  assumes "cache_wf m xs"
  shows "(lookup (dict m) k = None) = (k \<notin> key ` set (map (ent_at (store m)) xs))"
proof -
  have "(lookup (dict m) k \<noteq> None) = (\<exists>a. a \<in> set xs \<and> key_at (store m) a = k)"
    using wf_lookup_iff[OF assms, of k] by auto
  then show ?thesis by (auto simp: key_at_def)
qed

lemma wf_keys_distinct:
  assumes "cache_wf m xs"
  shows "distinct (map (key_at (store m)) xs)"
proof -
  have "inj_on (key_at (store m)) (set xs)"
  proof (rule inj_onI)
    fix a b assume "a \<in> set xs" "b \<in> set xs" "key_at (store m) a = key_at (store m) b"
    with wf_lookup_iff[OF assms, of "key_at (store m) a" a] wf_lookup_iff[OF assms, of "key_at (store m) a" b]
    show "a = b" by simp
  qed
  moreover from assms have "distinct xs" by (simp add: cache_wf_def ring_def)
  ultimately show ?thesis by (simp add: distinct_map)
qed

lemma wf_keys_set:
  assumes "cache_wf m xs"
  shows "key_at (store m) ` set xs = {k. lookup (dict m) k \<noteq> None}"
  using wf_lookup_iff[OF assms] by (auto simp: image_iff) 

lemma keys_loop_prefix:
  assumes R: "ring h (ps @ qs)" and V: "\<forall>a\<in>set ps. Value (h a) \<noteq> None"
  shows "keys_loop h (if ps = [] then None else Some (last ps)) acc
           = Some (Inr (acc @ map (key_at h) (rev ps)))"
  using assms
proof (induction ps arbitrary: qs acc rule: rev_induct)
  case Nil
  show ?case by (simp add: keys_loop.simps)
next
  case (snoc a ps)
  from snoc.prems obtain ent where ent: "Value (h a) = Some ent" by auto
  from snoc.prems have la: "lst (h a)" and nr: "root \<notin> set ps"
    and L: "linked h ((root # ps) @ a # qs @ [root])"
    by (auto simp: ring_def)
  have pa: "prv (h a) = Some (last (root # ps))"
  proof (cases ps rule: rev_cases)
    case Nil with L show ?thesis using linked_prv[of h "[]" root a "qs @ [root]"] by simp
  next
    case (snoc ps' p) with L show ?thesis using linked_prv[of h "root # ps'" p a "qs @ [root]"] by simp
  qed
  have "ps \<noteq> [] \<Longrightarrow> last ps \<noteq> root"
    using nr last_in_set[of ps] by metis
  then have P: "Prev h a = (if ps = [] then None else Some (last ps))"
    using la pa by (auto simp: Prev_def)
  have R': "ring h (ps @ (a # qs))" using snoc.prems by simp
  have V': "\<forall>a\<in>set ps. Value (h a) \<noteq> None" using snoc.prems by simp
  have "keys_loop h (Some a) acc = keys_loop h (Prev h a) (acc @ [key ent])"
    using ent by (subst keys_loop.simps) simp
  also have "\<dots> = Some (Inr ((acc @ [key ent]) @ map (key_at h) (rev ps)))"
    unfolding P by (rule snoc.IH[OF R' V'])
  finally show ?case using ent by (simp add: key_at_def ent_at_def)
qed

lemma Keys_wf:
  assumes "cache_wf m xs"
  shows "Keys m = Some (Inr (map (key_at (store m)) (rev xs)))"
proof -
  from assms have R: "ring (store m) (xs @ [])" and V: "\<forall>a\<in>set xs. Value (store m a) \<noteq> None"
    and l: "ll m = Some \<lparr>llen = int (length xs)\<rparr>" and c: "\<not> closed m"
    by (auto simp: cache_wf_def)
  have B: "Back (store m) \<lparr>llen = int (length xs)\<rparr> = (if xs = [] then None else Some (last xs))"
    using ring_last[of "store m" xs] R by (auto simp: Back_def)
  show ?thesis
    using keys_loop_prefix[OF R V, of "[]"] l c B by (simp add: Keys_def)
qed

lemma Get_wf:
  assumes "cache_wf m xs"
  shows "\<exists>m'. Get pick k m = Inr ((case lookup (dict m) k of None \<Rightarrow> (0, False)
                                     | Some a \<Rightarrow> (val (ent_at (store m) a), True)), m')"
proof (cases "lookup (dict m) k")
  case None
  with assms show ?thesis by (simp add: Get_def cache_wf_def)
next
  case (Some a)
  with wf_lookup_iff[OF assms] have "a \<in> set xs" by simp
  with assms obtain ent where "Value (store m a) = Some ent" by (auto simp: cache_wf_def)
  with assms Some show ?thesis by (simp add: Get_def cache_wf_def ent_at_def)
qed

lemma wf_Get_entry:
  assumes W: "cache_wf m xs" and e: "\<lparr>key = k, val = v\<rparr> \<in> set (map (ent_at (store m)) xs)"
  shows "\<exists>m'. Get pick k m = Inr ((v, True), m')"
proof -
  from e obtain a where a: "a \<in> set xs" "ent_at (store m) a = \<lparr>key = k, val = v\<rparr>" by auto
  then have "key_at (store m) a = k" by (simp add: key_at_def)
  with wf_lookup_iff[OF W] a have "lookup (dict m) k = Some a" by simp
  with Get_wf[OF W, of pick k] a show ?thesis by simp
qed

lemma Get_state: "Get pick k m = Inr (r, m') \<Longrightarrow> \<exists>c. m' = m\<lparr>ch := c\<rparr>"
proof -
  assume "Get pick k m = Inr (r, m')"
  then have "m' = m\<lparr>ch := ch m\<rparr> \<or> m' = m\<lparr>ch := map_option (\<lambda>q. q @ [the (lookup (dict m) k)]) (ch m)\<rparr>"
    by (auto simp: Get_def Let_def split: if_splits option.splits)
  then show ?thesis by blast
qed

lemma cache_inv_ch: "cache_inv (m\<lparr>ch := c\<rparr>) xs = cache_inv m xs"
  by (simp add: cache_inv_def cache_wf_def cong: option.case_cong)

lemma Get_inv:
  assumes "cache_inv m xs" and "Get pick k m = Inr (r, m')"
  shows "cache_inv m' xs"
  using Get_state[OF assms(2)] assms(1) by (auto simp: cache_inv_ch)

lemma Put_existing:
  assumes I: "cache_wf m xs" and k: "lookup (dict m) k = Some a"
  shows "\<exists>m'. Put k v m = Inr m' \<and> cache_wf m' (a # remove1 a xs)
           \<and> map (ent_at (store m')) (a # remove1 a xs)
               = \<lparr>key = k, val = v\<rparr> # map (ent_at (store m)) (remove1 a xs)
           \<and> dict m' = dict m \<and> len m' = len m \<and> capacity m' = capacity m \<and> ch m' = ch m
           \<and> (\<forall>b. lst (store m' b) = lst (store m b))"
proof -
  from wf_lookup_iff[OF I] k have a: "a \<in> set xs" and ka: "key_at (store m) a = k" by auto
  from I have R: "ring (store m) xs" and c: "\<not> closed m"
    and l: "ll m = Some \<lparr>llen = int (length xs)\<rparr>"
    by (auto simp: cache_wf_def)
  from I a obtain ent where ent: "Value (store m a) = Some ent" by (auto simp: cache_wf_def)
  with ka have ke: "key ent = k" by (simp add: key_at_def ent_at_def)
  from MoveToFront_ring[OF R a, of "\<lparr>llen = int (length xs)\<rparr>"] obtain h' where h':
    "MoveToFront (Some \<lparr>llen = int (length xs)\<rparr>) a (store m) = Inr h'" "ring h' (a # remove1 a xs)" "same_payload (store m) h'"
    by blast
  let ?h = "h'(a := (h' a)\<lparr>Value := Some (ent\<lparr>val := v\<rparr>)\<rparr>)"
  let ?m = "m\<lparr>store := ?h\<rparr>"
  have va: "Value (h' a) = Some ent" using h'(3) ent by (simp add: same_payload_def)
  have P: "Put k v m = Inr ?m"
    using c k l h'(1) va by (simp add: Put_def and_then_def)
  have R': "ring ?h (a # remove1 a xs)"
    using h'(2) by (rule ring_payload) simp
  have D: "distinct xs" using R by (simp add: ring_def)
  have S: "set (a # remove1 a xs) = set xs" using a D by auto
  have val: "\<forall>b. b \<noteq> a \<longrightarrow> Value (?h b) = Value (store m b)"
    using h'(3) by (simp add: same_payload_def)
  have keys: "\<forall>b. key_at ?h b = key_at (store m) b"
    using val ent ke ka by (simp add: key_at_def ent_at_def)
  have len: "length (a # remove1 a xs) = length xs"
    using a length_pos_if_in_set[OF a] by (simp add: length_remove1)
  have "cache_wf ?m (a # remove1 a xs)"
    unfolding cache_wf_def len
    using I R' S keys val a
    by (auto simp: cache_wf_def split: option.splits)
  moreover have "map (ent_at ?h) (a # remove1 a xs)
               = \<lparr>key = k, val = v\<rparr> # map (ent_at (store m)) (remove1 a xs)"
    using val ke D by (auto simp: ent_at_def)
  moreover have "\<forall>b. lst (?h b) = lst (store m b)"
    using h'(3) by (simp add: same_payload_def)
  ultimately show ?thesis using P by auto
qed

lemma evict_wf:
  assumes W: "cache_wf m (ys @ [a])"
  shows "\<exists>m'. evict m = Inr m' \<and> cache_wf m' ys
           \<and> (\<forall>b. Value (store m' b) = Value (store m b))
           \<and> lookup (dict m') = (lookup (dict m))(key_at (store m) a := None)
           \<and> len m' = len m - 1 \<and> capacity m' = capacity m \<and> ch m' = ch m \<and> fresh m' = fresh m
           \<and> \<not> lst (store m' a) \<and> (\<forall>b. b \<noteq> a \<longrightarrow> lst (store m' b) = lst (store m b))"
proof -
  from W have R: "ring (store m) (ys @ [a])" and l: "ll m = Some \<lparr>llen = int (length (ys @ [a]))\<rparr>"
    by (auto simp: cache_wf_def)
  from W obtain ent where ent: "Value (store m a) = Some ent" by (auto simp: cache_wf_def)
  from W obtain d where d: "dict m = Some d" by (auto simp: cache_wf_def split: option.splits)
  let ?l = "\<lparr>llen = int (length (ys @ [a]))\<rparr>"
  have B: "Back (store m) ?l = Some a"
    using ring_last[OF R] by (simp add: Back_def)
  from Remove_last_ring[OF R, of ?l] obtain h' where h':
    "Remove a (store m) ?l = Inr (Value (store m a), h', ?l\<lparr>llen := llen ?l - 1\<rparr>)"
    "ring h' ys" "\<forall>b. Value (h' b) = Value (store m b)" "\<not> lst (h' a)"
    "\<forall>b. b \<noteq> a \<longrightarrow> lst (h' b) = lst (store m b)"
    by blast
  let ?m = "m\<lparr>store := h', ll := Some (?l\<lparr>llen := llen ?l - 1\<rparr>),
              dict := Some (d(key ent := None)), len := len m - 1\<rparr>"
  have E: "evict m = Inr ?m"
    using l B h'(1) ent d by (simp add: evict_def and_then_def)
  have ka: "key_at (store m) a = key ent" using ent by (simp add: key_at_def ent_at_def)
  have keys: "\<forall>b. key_at h' b = key_at (store m) b"
    using h'(3) by (simp add: key_at_def ent_at_def)
  have D: "a \<notin> set ys" using R by (auto simp: ring_def)
  have inj: "\<forall>b\<in>set ys. key_at (store m) b \<noteq> key ent"
  proof
    fix b assume b: "b \<in> set ys"
    with W have "lookup (dict m) (key_at (store m) b) = Some b" by (auto simp: cache_wf_def)
    moreover from W have "lookup (dict m) (key_at (store m) a) = Some a" by (auto simp: cache_wf_def)
    ultimately show "key_at (store m) b \<noteq> key ent" using ka D b by auto
  qed
  have dom: "dom (d(key ent := None)) = key_at (store m) ` set ys"
  proof -
    from W d have "dom d = key_at (store m) ` set (ys @ [a])" by (simp add: cache_wf_def)
    then show ?thesis using inj ka by auto
  qed
  have "cache_wf ?m ys"
    unfolding cache_wf_def
    using W h'(2,3) keys inj dom d
    by (auto simp: cache_wf_def lookup_def)
  moreover have "lookup (dict ?m) = (lookup (dict m))(key_at (store m) a := None)"
    using d ka by (auto simp: lookup_def)
  ultimately show ?thesis using E h'(3,4,5) by auto
qed

lemma push_wf:
  assumes W: "cache_wf m xs" and k: "lookup (dict m) k = None" and d: "dict m = Some d"
    and P: "PushFront \<lparr>key = k, val = v\<rparr> (store m) \<lparr>llen = int (length xs)\<rparr> (fresh m)
              = Inr (fresh m, h', \<lparr>llen = int (length xs)\<rparr>\<lparr>llen := int (length xs) + 1\<rparr>, Suc (fresh m))"
    and R': "ring h' (fresh m # xs)" and V: "Value (h' (fresh m)) = Some \<lparr>key = k, val = v\<rparr>"
    and F: "\<forall>b. b \<noteq> fresh m \<longrightarrow> Value (h' b) = Value (store m b)"
  shows "cache_wf (m\<lparr>store := h', ll := Some (\<lparr>llen = int (length xs)\<rparr>\<lparr>llen := int (length xs) + 1\<rparr>),
                    fresh := Suc (fresh m), dict := Some (d(k \<mapsto> fresh m)), len := len m + 1\<rparr>)
           (fresh m # xs)"
proof -
  have nf: "\<forall>a\<in>set xs. a \<noteq> fresh m" using W by (auto simp: cache_wf_def)
  then have keys: "\<forall>a\<in>set xs. key_at h' a = key_at (store m) a"
    using F by (simp add: key_at_def ent_at_def)
  have kf: "key_at h' (fresh m) = k" using V by (simp add: key_at_def ent_at_def)
  have nk: "\<forall>a\<in>set xs. key_at (store m) a \<noteq> k"
    using W k by (auto simp: cache_wf_def)
  have dom: "dom (d(k \<mapsto> fresh m)) = key_at h' ` set (fresh m # xs)"
  proof -
    from W d have "dom d = key_at (store m) ` set xs" by (simp add: cache_wf_def)
    then show ?thesis using keys kf by auto
  qed
  show ?thesis
    unfolding cache_wf_def
    using W R' V F nf keys kf nk dom d
    by (auto simp: cache_wf_def lookup_def)
qed

lemma Put_new:
  assumes I: "cache_inv m xs" and k: "lookup (dict m) k = None"
  shows "\<exists>m'. Put k v m = Inr m'
           \<and> cache_inv m' (fresh m # (if len m < capacity m then xs else butlast xs))
           \<and> map (ent_at (store m')) (fresh m # (if len m < capacity m then xs else butlast xs))
               = \<lparr>key = k, val = v\<rparr> # map (ent_at (store m)) (if len m < capacity m then xs else butlast xs)
           \<and> capacity m' = capacity m \<and> ch m' = ch m
           \<and> (\<forall>b. lst (store m' b) \<and> b \<notin> set (fresh m # (if len m < capacity m then xs else butlast xs))
                  \<longrightarrow> lst (store m b) \<and> b \<notin> set xs)"
proof -
  from I have W: "cache_wf m xs" and le: "len m \<le> capacity m" by (simp_all add: cache_inv_def)
  from W have R: "ring (store m) xs" and c: "\<not> closed m" and fr0: "fresh m \<noteq> root"
    and l: "ll m = Some \<lparr>llen = int (length xs)\<rparr>" and frx: "fresh m \<notin> set xs"
    and lenm: "len m = int (length xs)" and cap: "0 < capacity m"
    by (auto simp: cache_wf_def)
  from W obtain d where d: "dict m = Some d" by (auto simp: cache_wf_def split: option.splits)
  let ?l = "\<lparr>llen = int (length xs)\<rparr>"
  from PushFront_ring[OF R frx fr0, of "\<lparr>key = k, val = v\<rparr>" ?l] obtain h' where h':
    "PushFront \<lparr>key = k, val = v\<rparr> (store m) ?l (fresh m)
       = Inr (fresh m, h', ?l\<lparr>llen := llen ?l + 1\<rparr>, Suc (fresh m))"
    "ring h' (fresh m # xs)" "Value (h' (fresh m)) = Some \<lparr>key = k, val = v\<rparr>"
    "\<forall>b. b \<noteq> fresh m \<longrightarrow> Value (h' b) = Value (store m b)"
    "\<forall>b. b \<noteq> fresh m \<longrightarrow> lst (h' b) = lst (store m b)"
    by blast
  let ?m1 = "m\<lparr>store := h', ll := Some (?l\<lparr>llen := int (length xs) + 1\<rparr>),
               fresh := Suc (fresh m), dict := Some (d(k \<mapsto> fresh m)), len := len m + 1\<rparr>"
  have W1: "cache_wf ?m1 (fresh m # xs)"
    using push_wf[OF W k d _ h'(2,3,4)] h'(1) by simp
  have P: "Put k v m = (if len ?m1 > capacity ?m1 then evict ?m1 else Inr ?m1)"
    using c k l d h'(1) by (simp add: Put_def and_then_def Let_def)
  have E1: "\<forall>b\<in>set xs. ent_at h' b = ent_at (store m) b"
  proof
    fix b assume "b \<in> set xs"
    with frx have "b \<noteq> fresh m" by metis
    with h'(4) show "ent_at h' b = ent_at (store m) b" by (simp add: ent_at_def)
  qed
  show ?thesis
  proof (cases "len m < capacity m")
    case True
    then have "Put k v m = Inr ?m1" using P by simp
    moreover have "cache_inv ?m1 (fresh m # xs)" using W1 True by (simp add: cache_inv_def)
    moreover have "map (ent_at h') (fresh m # xs) = \<lparr>key = k, val = v\<rparr> # map (ent_at (store m)) xs"
      using E1 h'(3) by (simp add: ent_at_def)
    moreover have "\<forall>b. lst (h' b) \<and> b \<notin> set (fresh m # xs) \<longrightarrow> lst (store m b) \<and> b \<notin> set xs"
      using h'(5) by auto
    ultimately show ?thesis using True by auto
  next
    case False
    with le lenm cap have ne: "xs \<noteq> []" and eq: "len m = capacity m" by auto
    then obtain ys a where xs: "xs = ys @ [a]" by (metis rev_exhaust)
    from W1 xs have W1': "cache_wf ?m1 ((fresh m # ys) @ [a])" by simp
    from evict_wf[OF W1'] obtain m' where m':
      "evict ?m1 = Inr m'" "cache_wf m' (fresh m # ys)"
      "\<forall>b. Value (store m' b) = Value (store ?m1 b)"
      "len m' = len ?m1 - 1" "capacity m' = capacity ?m1" "ch m' = ch ?m1"
      "\<not> lst (store m' a)" "\<forall>b. b \<noteq> a \<longrightarrow> lst (store m' b) = lst (store ?m1 b)"
      by blast
    have "Put k v m = Inr m'" using P eq m'(1) by simp
    moreover have "cache_inv m' (fresh m # butlast xs)"
      using m'(2,4,5) xs eq by (simp add: cache_inv_def)
    moreover have "map (ent_at (store m')) (fresh m # butlast xs)
                 = \<lparr>key = k, val = v\<rparr> # map (ent_at (store m)) (butlast xs)"
      using E1 h'(3) m'(3) xs by (simp add: ent_at_def)
    moreover have "\<forall>b. lst (store m' b) \<and> b \<notin> set (fresh m # butlast xs) \<longrightarrow> lst (store m b) \<and> b \<notin> set xs"
    proof (intro allI impI)
      fix b assume b: "lst (store m' b) \<and> b \<notin> set (fresh m # butlast xs)"
      with m'(7) have ba: "b \<noteq> a" by metis
      from b have bf: "b \<noteq> fresh m" by simp
      from b ba m'(8) have "lst (store ?m1 b)" by metis
      with bf h'(5) have "lst (store m b)" by simp
      moreover from b ba xs have "b \<notin> set xs" by simp
      ultimately show "lst (store m b) \<and> b \<notin> set xs" by simp
    qed
    ultimately show ?thesis using False m'(5,6) by auto
  qed
qed

lemma Put_inv:
  assumes "cache_inv m xs"
  shows "\<exists>m' xs'. Put k v m = Inr m' \<and> cache_inv m' xs'"
proof (cases "lookup (dict m) k")
  case None
  from Put_new[OF assms None, of v] show ?thesis by blast
next
  case (Some a)
  from assms have W: "cache_wf m xs" and le: "len m \<le> capacity m" by (simp_all add: cache_inv_def)
  from Put_existing[OF W Some, of v] obtain m' where
    "Put k v m = Inr m'" "cache_wf m' (a # remove1 a xs)" "len m' = len m" "capacity m' = capacity m"
    by (elim exE conjE) (rule that; assumption)
  with le show ?thesis by (auto simp: cache_inv_def)
qed

lemma Clear_inv:
  assumes "cache_inv m xs"
  shows "\<exists>m'. Clear m = Inr m' \<and> cache_inv m' [] \<and> ch m' = ch m"
  using assms
  by (simp add: Clear_def Init_def cache_inv_def cache_wf_def ring_def link_def lookup_def)

text \<open>
  The tracker's step on a handle whose element is in the list moves it to the front;
  on a handle whose element was evicted (its \<^verbatim>\<open>list\<close> field is nil) it only takes the
  handle off the queue; with an empty queue the tracker waits, so a run without
  \<^verbatim>\<open>Get\<close> is a run of the calls alone.
\<close>

lemma processEvents_linked:
  assumes I: "cache_inv m xs" and q: "ch m = Some (e # q)" and e: "e \<in> set xs"
  shows "\<exists>m'. processEvents pick m = Inr (True, m') \<and> cache_inv m' (e # remove1 e xs)
           \<and> ch m' = Some q \<and> dict m' = dict m \<and> len m' = len m
           \<and> (\<forall>b. Value (store m' b) = Value (store m b))
           \<and> (\<forall>b. lst (store m' b) = lst (store m b))"
proof -
  from I have W: "cache_wf m xs" and le: "len m \<le> capacity m" by (simp_all add: cache_inv_def)
  from W have R: "ring (store m) xs" and nd: "\<not> done_ch m"
    and l: "ll m = Some \<lparr>llen = int (length xs)\<rparr>"
    by (auto simp: cache_wf_def)
  from R e have le': "lst (store m e)" by (simp add: ring_def)
  from MoveToFront_ring[OF R e, of "\<lparr>llen = int (length xs)\<rparr>"] obtain h' where h':
    "MoveToFront (Some \<lparr>llen = int (length xs)\<rparr>) e (store m) = Inr h'"
    "ring h' (e # remove1 e xs)" "same_payload (store m) h'"
    by blast
  let ?m = "m\<lparr>ch := Some q, store := h'\<rparr>"
  have P: "processEvents pick m = Inr (True, ?m)"
  proof (cases "Prev (store m) e = None")
    case False
    with q nd l h'(1) show ?thesis by (simp add: processEvents_def and_then_def)
  next
    case True
    from ring_prv_root[OF R e True] h'(1) le' have "h' = store m"
      by (simp add: MoveToFront_def)
    with True q nd show ?thesis by (simp add: processEvents_def)
  qed
  have D: "distinct xs" using R by (simp add: ring_def)
  have S: "set (e # remove1 e xs) = set xs" using e D by auto
  have len: "length (e # remove1 e xs) = length xs"
    using e length_pos_if_in_set[OF e] by (simp add: length_remove1)
  have keys: "\<forall>b. key_at h' b = key_at (store m) b"
    using h'(3) by (simp add: key_at_def ent_at_def same_payload_def)
  have "cache_wf ?m (e # remove1 e xs)"
    unfolding cache_wf_def len
    using W h'(2,3) S keys
    by (auto simp: cache_wf_def same_payload_def split: option.splits)
  with le P h'(3) show ?thesis by (auto simp: cache_inv_def same_payload_def)
qed

lemma processEvents_unlinked:
  assumes "ch m = Some (e # q)" and "\<not> lst (store m e)" and "\<not> done_ch m"
  shows "processEvents pick m = Inr (True, m\<lparr>ch := Some q\<rparr>)"
  using assms by (simp add: processEvents_def Prev_def)

lemma processEvents_idle:
  assumes "ch m = Some []" and "\<not> done_ch m"
  shows "processEvents pick m = Inr (True, m)"
  using assms by (simp add: processEvents_def)

text \<open>
  Every state of \<open>reach\<close> satisfies the invariant: the one step left out, the
  tracker's step on a handle that a \<^verbatim>\<open>Clear\<close> has made stale, is the step of C1.
\<close>

lemma queue_ok_Put:
  assumes I: "cache_inv m xs" and Q: "queue_ok m xs"
  shows "\<exists>m' xs'. Put k v m = Inr m' \<and> cache_inv m' xs' \<and> queue_ok m' xs'"
proof (cases "lookup (dict m) k")
  case None
  let ?xs = "fresh m # (if len m < capacity m then xs else butlast xs)"
  from Put_new[OF I None, of v] obtain m' where m':
    "Put k v m = Inr m'" "cache_inv m' ?xs" "ch m' = ch m"
    "\<forall>b. lst (store m' b) \<and> b \<notin> set ?xs \<longrightarrow> lst (store m b) \<and> b \<notin> set xs"
    by (elim exE conjE) (rule that; assumption)
  from Q obtain q where q: "ch m = Some q" "\<forall>e\<in>set q. e \<in> set xs \<or> \<not> lst (store m e)"
    by (auto simp: queue_ok_def split: option.splits)
  have "\<forall>e\<in>set q. e \<in> set ?xs \<or> \<not> lst (store m' e)"
  proof
    fix e assume "e \<in> set q"
    with q(2) have "e \<in> set xs \<or> \<not> lst (store m e)" by simp
    with m'(4) show "e \<in> set ?xs \<or> \<not> lst (store m' e)" by metis
  qed
  with q(1) m'(3) have "queue_ok m' ?xs" by (simp add: queue_ok_def)
  with m'(1,2) show ?thesis by blast
next
  case (Some a)
  from I have W: "cache_wf m xs" and le: "len m \<le> capacity m" by (simp_all add: cache_inv_def)
  from wf_lookup_iff[OF W] Some have a: "a \<in> set xs" by simp
  from Put_existing[OF W Some, of v] obtain m' where m':
    "Put k v m = Inr m'" "cache_wf m' (a # remove1 a xs)" "len m' = len m" "capacity m' = capacity m"
    "ch m' = ch m" "\<forall>b. lst (store m' b) = lst (store m b)"
    by (elim exE conjE) (rule that; assumption)
  have S: "set (a # remove1 a xs) = set xs"
    using a W by (auto simp: cache_wf_def ring_def)
  from Q m'(5,6) have "queue_ok m' (a # remove1 a xs)"
    unfolding queue_ok_def S by (simp split: option.splits)
  with m'(1,2,3,4) le show ?thesis by (auto simp: cache_inv_def)
qed

lemma queue_ok_Get:
  assumes I: "cache_inv m xs" and Q: "queue_ok m xs" and G: "Get pick k m = Inr (r, m')"
  shows "cache_inv m' xs \<and> queue_ok m' xs"
proof -
  from I have W: "cache_wf m xs" by (simp add: cache_inv_def)
  have "queue_ok m' xs"
  proof (cases "lookup (dict m) k")
    case None
    with G have "m' = m" by (auto simp: Get_def split: if_splits)
    with Q show ?thesis by simp
  next
    case (Some a)
    with wf_lookup_iff[OF W] have a: "a \<in> set xs" by simp
    from G Some have "m' = m \<or> m' = m\<lparr>ch := map_option (\<lambda>q. q @ [a]) (ch m)\<rparr>"
      by (auto simp: Get_def Let_def split: if_splits option.splits)
    moreover from Q obtain q where q: "ch m = Some q" "\<forall>e\<in>set q. e \<in> set xs \<or> \<not> lst (store m e)"
      by (auto simp: queue_ok_def split: option.splits)
    moreover from q(2) a have "\<forall>e\<in>set (q @ [a]). e \<in> set xs \<or> \<not> lst (store m e)" by simp
    ultimately show ?thesis using Q by (auto simp: queue_ok_def)
  qed
  with Get_inv[OF I G] show ?thesis by simp
qed

lemma queue_ok_Tracker:
  assumes I: "cache_inv m xs" and Q: "queue_ok m xs" and P: "processEvents pick m = Inr (b, m')"
  shows "\<exists>xs'. cache_inv m' xs' \<and> queue_ok m' xs'"
proof -
  from I have nd: "\<not> done_ch m" by (simp add: cache_inv_def cache_wf_def)
  from Q obtain q where q: "ch m = Some q" "\<forall>e\<in>set q. e \<in> set xs \<or> \<not> lst (store m e)"
    by (auto simp: queue_ok_def split: option.splits)
  show ?thesis
  proof (cases q)
    case Nil
    with q(1) nd P have "m' = m" by (simp add: processEvents_def)
    with I Q show ?thesis by blast
  next
    case (Cons e q')
    show ?thesis
    proof (cases "e \<in> set xs")
      case True
      from processEvents_linked[OF I _ True, of q' pick] q(1) Cons obtain m1 where m1:
        "processEvents pick m = Inr (True, m1)" "cache_inv m1 (e # remove1 e xs)" "ch m1 = Some q'"
        "\<forall>b. lst (store m1 b) = lst (store m b)"
        by auto
      from I True have S: "set (e # remove1 e xs) = set xs"
        by (auto simp: cache_inv_def cache_wf_def ring_def)
      from q(2) Cons m1(3,4) have "queue_ok m1 (e # remove1 e xs)"
        unfolding queue_ok_def S by simp
      with m1(1,2) P show ?thesis by auto
    next
      case False
      with q(2) Cons have "\<not> lst (store m e)" by simp
      from processEvents_unlinked[OF _ this nd, of q' pick] q(1) Cons P
      have m': "m' = m\<lparr>ch := Some q'\<rparr>" by simp
      with q(2) Cons have "queue_ok m' xs" by (simp add: queue_ok_def)
      with I m' show ?thesis by (auto simp: cache_inv_ch)
    qed
  qed
qed

lemma reach_inv: "reach m \<Longrightarrow> \<exists>xs. cache_inv m xs \<and> queue_ok m xs"
proof (induction rule: reach.induct)
  case (reach_New c m)
  then have "cache_inv m [] \<and> queue_ok m []"
    by (auto simp: New_def Init_def cache_inv_def cache_wf_def ring_def link_def lookup_def queue_ok_def
        split: if_splits)
  then show ?case by blast
next
  case (reach_Put m k v m')
  then obtain xs where "cache_inv m xs" "queue_ok m xs" by blast
  from queue_ok_Put[OF this, of k v] reach_Put.hyps(2) show ?case by auto
next
  case (reach_Get m pick k r m')
  then obtain xs where "cache_inv m xs" "queue_ok m xs" by blast
  from queue_ok_Get[OF this reach_Get.hyps(2)] show ?case by blast
next
  case (reach_Clear m m')
  then obtain xs where "cache_inv m xs" by blast
  from Clear_inv[OF this] reach_Clear.hyps(2,3) have "cache_inv m' [] \<and> queue_ok m' []"
    by (auto simp: queue_ok_def)
  then show ?case by blast
next
  case (reach_Tracker m pick b m')
  then obtain xs where "cache_inv m xs" "queue_ok m xs" by blast
  from queue_ok_Tracker[OF this reach_Tracker.hyps(2)] show ?case .
qed

text \<open>
  \<^verbatim>\<open>Close\<close> of part\_001 twice is \<^verbatim>\<open>Close\<close> once, and every operation keeps the
  lifecycle flags in agreement.
\<close>

lemma Close_twice: "and_then (Close m) Close = Close m"
  by (simp add: Close_def and_then_def)

lemma lifecycle_New: "New c = Inr m \<Longrightarrow> lifecycle_ok m"
  by (auto simp: New_def Init_def lifecycle_ok_def split: if_splits)

lemma evict_flags:
  "evict m = Inr m' \<Longrightarrow> once m' = once m \<and> closed m' = closed m \<and> done_ch m' = done_ch m"
  by (auto simp: evict_def and_then_def split: option.splits sum.splits prod.splits)

lemma Put_flags:
  "Put k v m = Inr m' \<Longrightarrow> once m' = once m \<and> closed m' = closed m \<and> done_ch m' = done_ch m"
proof -
  assume P: "Put k v m = Inr m'"
  show ?thesis
  proof (cases "closed m")
    case True with P show ?thesis by (simp add: Put_def)
  next
    case False
    show ?thesis
    proof (cases "lookup (dict m) k")
      case (Some e)
      with P False show ?thesis
        by (auto simp: Put_def and_then_def split: option.splits sum.splits)
    next
      case None
      with P False show ?thesis
        by (auto simp: Put_def and_then_def Let_def
            split: option.splits sum.splits prod.splits if_splits dest!: evict_flags)
    qed
  qed
qed

lemma lifecycle_Put: "lifecycle_ok m \<Longrightarrow> Put k v m = Inr m' \<Longrightarrow> lifecycle_ok m'"
  using Put_flags[of k v m m'] by (simp add: lifecycle_ok_def)

lemma lifecycle_Get: "lifecycle_ok m \<Longrightarrow> Get pick k m = Inr (r, m') \<Longrightarrow> lifecycle_ok m'"
  using Get_state[of pick k m r m'] by (auto simp: lifecycle_ok_def)

lemma lifecycle_Clear: "lifecycle_ok m \<Longrightarrow> Clear m = Inr m' \<Longrightarrow> lifecycle_ok m'"
  by (auto simp: Clear_def Init_def lifecycle_ok_def split: if_splits option.splits)

lemma lifecycle_Close: "lifecycle_ok m \<Longrightarrow> Close m = Inr m' \<Longrightarrow> lifecycle_ok m'"
  by (auto simp: Close_def lifecycle_ok_def split: if_splits)

lemma lifecycle_processEvents:
  "lifecycle_ok m \<Longrightarrow> processEvents pick m = Inr (b, m') \<Longrightarrow> lifecycle_ok m'"
  by (auto simp: processEvents_def lifecycle_ok_def and_then_def Let_def
      split: if_splits option.splits list.splits sum.splits)

section \<open>Runs of Put\<close>

lemma Puts_append: "Puts (as @ bs) m = and_then (Puts as m) (Puts bs)"
proof (induction as arbitrary: m)
  case Nil show ?case by simp
next
  case (Cons kv as)
  obtain k v where kv: "kv = (k, v)" by (cases kv)
  show ?case using Cons.IH unfolding kv by (cases "Put k v m") simp_all
qed

lemma key_mk_image:
  "key ` set (rev (map (\<lambda>(k, v). \<lparr>key = k, val = v\<rparr>) kvs)) = fst ` set kvs"
  by (induction kvs) auto

lemma Puts_fill:
  assumes "cache_inv m xs" "distinct (map fst kvs)"
    and "fst ` set kvs \<inter> key ` set (map (ent_at (store m)) xs) = {}"
    and "len m + int (length kvs) \<le> capacity m"
  shows "\<exists>m' xs'. Puts kvs m = Inr m' \<and> cache_inv m' xs'
           \<and> map (ent_at (store m')) xs'
               = rev (map (\<lambda>(k, v). \<lparr>key = k, val = v\<rparr>) kvs) @ map (ent_at (store m)) xs
           \<and> capacity m' = capacity m"
  using assms
proof (induction kvs arbitrary: m xs)
  case Nil
  then show ?case by auto
next
  case (Cons kv kvs)
  obtain k v where kv: "kv = (k, v)" by (cases kv)
  from Cons.prems have W: "cache_wf m xs" by (simp add: cache_inv_def)
  from Cons.prems(3) kv have "k \<notin> key ` set (map (ent_at (store m)) xs)" by auto
  then have nk: "lookup (dict m) k = None" using wf_lookup_None[OF W] by simp
  from Cons.prems(4) have lt: "len m < capacity m" by simp
  from Put_new[OF Cons.prems(1) nk, of v] lt obtain m1 where m1:
    "Put k v m = Inr m1" "cache_inv m1 (fresh m # xs)"
    "map (ent_at (store m1)) (fresh m # xs) = \<lparr>key = k, val = v\<rparr> # map (ent_at (store m)) xs"
    "capacity m1 = capacity m"
    by auto
  from m1(2) Cons.prems(1) have l1: "len m1 = len m + 1"
    by (simp add: cache_inv_def cache_wf_def)
  have d: "distinct (map fst kvs)" using Cons.prems(2) by simp
  have disj: "fst ` set kvs \<inter> key ` set (map (ent_at (store m1)) (fresh m # xs)) = {}"
    unfolding m1(3) using Cons.prems(2,3) kv by auto
  have le: "len m1 + int (length kvs) \<le> capacity m1"
    using Cons.prems(4) l1 m1(4) by simp
  from Cons.IH[OF m1(2) d disj le] obtain m' xs' where m':
    "Puts kvs m1 = Inr m'" "cache_inv m' xs'"
    "map (ent_at (store m')) xs'
       = rev (map (\<lambda>(k, v). \<lparr>key = k, val = v\<rparr>) kvs) @ map (ent_at (store m1)) (fresh m # xs)"
    "capacity m' = capacity m1"
    by blast
  have "Puts (kv # kvs) m = Inr m'" using m1(1) m'(1) kv by simp
  moreover have "map (ent_at (store m')) xs'
       = rev (map (\<lambda>(k, v). \<lparr>key = k, val = v\<rparr>) (kv # kvs)) @ map (ent_at (store m)) xs"
    unfolding m'(3) m1(3) kv by simp
  ultimately show ?case using m'(2,4) m1(4) by auto
qed

lemma demo_run: "and_then (New 2) (Puts [(''a'', 1), (''b'', 2)]) = Inr demo"
  by (simp add: demo_def exec_defs)

lemma demo_facts:
  "\<not> closed demo" "\<not> done_ch demo" "lookup (dict demo) ''a'' = Some 1"
  "Value (store demo 1) = Some \<lparr>key = ''a'', val = 1\<rparr>" "ch demo = Some []"
  by (simp_all add: demo_def exec_defs)

lemma demo_inv: "cache_inv demo [2, 1]"
  by (simp add: demo_def exec_defs cache_inv_def cache_wf_def ring_def link_def key_at_def ent_at_def)

lemma Gets_demo: "n \<le> chan_cap \<Longrightarrow> Gets n ''a'' demo = Inr (demo\<lparr>ch := Some (replicate n 1)\<rparr>)"
proof (induction n)
  case 0
  then show ?case using demo_facts(5) by simp
next
  case (Suc n)
  then have IH: "Gets n ''a'' demo = Inr (demo\<lparr>ch := Some (replicate n 1)\<rparr>)" and lt: "n < chan_cap"
    by simp_all
  have "Get True ''a'' (demo\<lparr>ch := Some (replicate n 1)\<rparr>)
          = Inr ((1, True), demo\<lparr>ch := Some (replicate n 1 @ [1])\<rparr>)"
    using demo_facts lt by (simp add: Get_def)
  then show ?case using IH by (simp add: replicate_append_same)
qed

lemma demo_full_run: "Gets chan_cap ''a'' demo = Inr demo_full"
  using Gets_demo[of chan_cap] by (simp add: demo_full_def)

text \<open>
  The state before the tracker's step of C1 satisfies the invariant; the state after it
  satisfies it for no list.
\<close>

lemma stale_before_inv: "cache_inv stale_before []"
  by (simp add: stale_before_def exec_defs cache_inv_def cache_wf_def ring_def link_def)

lemma stale_after_broken: "\<not> cache_wf stale_after xs"
proof
  assume W: "cache_wf stale_after xs"
  have d: "dict stale_after = Some Map.empty" and n: "nxt (store stale_after root) = Some 1"
    by (simp_all add: stale_after_def stale_before_def exec_defs)
  from W d have "key_at (store stale_after) ` set xs = {}"
    by (simp add: cache_wf_def)
  then have "xs = []" by simp
  with W have "nxt (store stale_after root) = Some root"
    by (simp add: cache_wf_def ring_def link_def)
  with n show False by simp
qed

section \<open>Keys and Put on a state with the invariant\<close>

text \<open>
  On a state with the invariant \<open>cache_wf\<close>, where \<open>xs\<close> lists the elements from the
  front of the list, \<^verbatim>\<open>Keys\<close> returns the keys of the elements from the back of the
  list to its front; these are exactly the keys of the index, each once.
\<close>

lemma Keys_tail_to_head:
  assumes "cache_wf m xs"
  shows "Keys m = Some (Inr (map (key_at (store m)) (rev xs)))"
    and "set (map (key_at (store m)) (rev xs)) = {k. lookup (dict m) k \<noteq> None}"
    and "distinct (map (key_at (store m)) (rev xs))"
proof -
  show "Keys m = Some (Inr (map (key_at (store m)) (rev xs)))"
    using assms by (rule Keys_wf)
  show "set (map (key_at (store m)) (rev xs)) = {k. lookup (dict m) k \<noteq> None}"
    using wf_keys_set[OF assms] by simp
  show "distinct (map (key_at (store m)) (rev xs))"
    using wf_keys_distinct[OF assms] by (simp add: rev_map[symmetric])
qed

lemma Keys_tail_to_head_demo:
  "cache_wf demo [2, 1] \<and> Keys demo = Some (Inr [''a'', ''b''])
   \<and> {k. lookup (dict demo) k \<noteq> None} = {''a'', ''b''}"
proof -
  have h: "cache_wf demo [2, 1]" using demo_inv by (simp add: cache_inv_def)
  have k: "map (key_at (store demo)) (rev [2, 1]) = [''a'', ''b'']"
    by (simp add: demo_def exec_defs key_at_def ent_at_def)
  from Keys_tail_to_head(1,2)[OF h] h k show ?thesis by auto
qed

text \<open>
  On a state with the invariant \<open>cache_inv\<close>, \<^verbatim>\<open>Put\<close> of a key that is present does
  not panic, leaves \<^verbatim>\<open>Len\<close> as it was, makes \<^verbatim>\<open>Get\<close> of the key return the new value
  and true, and makes the key the last element of \<^verbatim>\<open>Keys\<close>.
\<close>

lemma Put_existing_key:
  assumes "cache_inv m xs" and "lookup (dict m) k = Some a"
  shows "\<exists>m'. Put k v m = Inr m' \<and> Len m' = Len m
           \<and> (\<forall>pick. \<exists>m''. Get pick k m' = Inr ((v, True), m''))
           \<and> (\<exists>ks. Keys m' = Some (Inr (ks @ [k])))"
proof -
  from assms(1) have W: "cache_wf m xs" by (simp add: cache_inv_def)
  let ?xs = "a # remove1 a xs"
  from Put_existing[OF W assms(2), of v] obtain m' where m':
    "Put k v m = Inr m'" "cache_wf m' ?xs"
    "map (ent_at (store m')) ?xs = \<lparr>key = k, val = v\<rparr> # map (ent_at (store m)) (remove1 a xs)"
    "len m' = len m"
    by (elim exE conjE) (rule that; assumption)
  have e: "\<lparr>key = k, val = v\<rparr> \<in> set (map (ent_at (store m')) ?xs)"
    unfolding m'(3) by simp
  have G: "\<forall>pick. \<exists>m''. Get pick k m' = Inr ((v, True), m'')"
    using wf_Get_entry[OF m'(2) e] by simp
  from m'(3) have "key_at (store m') a = k" by (simp add: key_at_def)
  then have "Keys m' = Some (Inr (map (key_at (store m')) (rev (remove1 a xs)) @ [k]))"
    using Keys_wf[OF m'(2)] by simp
  with m'(1,4) G show ?thesis by (auto simp: Len_def)
qed

lemma Put_existing_key_demo:
  "cache_inv demo [2, 1] \<and> lookup (dict demo) ''a'' = Some 1
   \<and> (\<exists>m'. Put ''a'' 5 demo = Inr m' \<and> Len m' = Len demo
         \<and> (\<forall>pick. \<exists>m''. Get pick ''a'' m' = Inr ((5, True), m''))
         \<and> (\<exists>ks. Keys m' = Some (Inr (ks @ [''a'']))))"
proof -
  have h: "cache_inv demo [2, 1]" "lookup (dict demo) ''a'' = Some 1"
    using demo_inv by (simp_all add: demo_def exec_defs)
  from Put_existing_key[OF h, of 5] h show ?thesis by simp
qed

text \<open>
  On a state with the invariant \<open>cache_inv\<close> (which includes a capacity of at least 1),
  \<^verbatim>\<open>Put\<close> of a key that is absent does not panic, and right after it the key is in
  the index and \<^verbatim>\<open>Get\<close> returns the value put and true; every other key of the index
  was in it before, so an eviction takes a key that was present. The instance below is
  at capacity: its \<^verbatim>\<open>Put\<close> evicts.
\<close>

lemma Put_new_key_stays:
  assumes "cache_inv m xs" and "lookup (dict m) k = None"
  shows "\<exists>m'. Put k v m = Inr m' \<and> lookup (dict m') k \<noteq> None
           \<and> (\<forall>pick. \<exists>m''. Get pick k m' = Inr ((v, True), m''))
           \<and> (\<forall>k'. lookup (dict m') k' \<noteq> None \<longrightarrow> k' = k \<or> lookup (dict m) k' \<noteq> None)"
proof -
  let ?rest = "if len m < capacity m then xs else butlast xs"
  let ?xs = "fresh m # ?rest"
  from assms(1) have W0: "cache_wf m xs" by (simp add: cache_inv_def)
  from Put_new[OF assms, of v] obtain m' where m':
    "Put k v m = Inr m'" "cache_inv m' ?xs"
    "map (ent_at (store m')) ?xs = \<lparr>key = k, val = v\<rparr> # map (ent_at (store m)) ?rest"
    by (elim exE conjE) (rule that; assumption)
  from m'(2) have W: "cache_wf m' ?xs" by (simp add: cache_inv_def)
  have e: "\<lparr>key = k, val = v\<rparr> \<in> set (map (ent_at (store m')) ?xs)"
    unfolding m'(3) by simp
  have "key \<lparr>key = k, val = v\<rparr> = k" by simp
  with e have "k \<in> key ` set (map (ent_at (store m')) ?xs)" by (metis imageI)
  then have "lookup (dict m') k \<noteq> None" using wf_lookup_None[OF W, of k] by simp
  moreover have "\<forall>pick. \<exists>m''. Get pick k m' = Inr ((v, True), m'')"
    using wf_Get_entry[OF W e] by simp
  moreover have "\<forall>k'. lookup (dict m') k' \<noteq> None \<longrightarrow> k' = k \<or> lookup (dict m) k' \<noteq> None"
  proof (intro allI impI)
    fix k' assume "lookup (dict m') k' \<noteq> None"
    then have "k' \<in> key ` set (map (ent_at (store m')) ?xs)"
      using wf_lookup_None[OF W, of k'] by simp
    then have "k' = k \<or> k' \<in> key ` set (map (ent_at (store m)) ?rest)"
      unfolding m'(3) by auto
    moreover have "set ?rest \<subseteq> set xs" by (auto dest: in_set_butlastD)
    ultimately have "k' = k \<or> k' \<in> key ` set (map (ent_at (store m)) xs)" by auto
    then show "k' = k \<or> lookup (dict m) k' \<noteq> None"
      using wf_lookup_None[OF W0, of k'] by simp
  qed
  ultimately show ?thesis using m'(1) by blast
qed

lemma Put_new_key_stays_demo:
  "cache_inv demo [2, 1] \<and> lookup (dict demo) ''c'' = None \<and> len demo = capacity demo
   \<and> (\<exists>m'. Put ''c'' 3 demo = Inr m' \<and> lookup (dict m') ''c'' \<noteq> None
         \<and> (\<forall>pick. \<exists>m''. Get pick ''c'' m' = Inr ((3, True), m''))
         \<and> (\<forall>k'. lookup (dict m') k' \<noteq> None \<longrightarrow> k' = ''c'' \<or> lookup (dict demo) k' \<noteq> None))"
proof -
  have h: "cache_inv demo [2, 1]" "lookup (dict demo) ''c'' = None"
    using demo_inv by (simp_all add: demo_def exec_defs)
  have f: "len demo = capacity demo" by (simp add: demo_def exec_defs)
  from Put_new_key_stays[OF h, of 3] h f show ?thesis by simp
qed

section \<open>The claims\<close>

text \<open>
  C1 (processing a queued event whose element was evicted or cleared never corrupts the
  list or the index). The tracker tests \<^verbatim>\<open>ele.Prev() != nil\<close>, which is false for an
  evicted element but not for a cleared one: \<^verbatim>\<open>Clear\<close> calls \<^verbatim>\<open>Init\<close>, which resets
  the sentinel only, so a cleared element keeps its \<^verbatim>\<open>list\<close> and \<^verbatim>\<open>prev\<close> fields.
  With capacity 2, after \<^verbatim>\<open>Put("a", 1); Put("b", 2); Get("a"); Clear()\<close> the list and the
  index are empty, the handle of "a" is queued and \<^verbatim>\<open>Prev\<close> of its element is still the
  element of "b". The tracker's step then links the
  element of "a" back after the sentinel while the index stays empty; after a further
  \<^verbatim>\<open>Put("c", 3)\<close>, \<^verbatim>\<open>Keys\<close> is \<open>[a, c]\<close>, \<^verbatim>\<open>Len\<close> is 1 and \<^verbatim>\<open>Get("a")\<close> finds nothing.
  The first half of the statement is the run on part\_001, the second half the same run
  on part\_002.
\<close>

theorem C1_stale_event_after_Clear:
  "and_then (and_then (and_then (New 2) (Puts [(''a'', 1), (''b'', 2)]))
              (\<lambda>m. and_then (Get True ''a'' m) (\<lambda>(r, m'). Inr m'))) Clear = Inr stale_before
   \<and> ch stale_before = Some [1] \<and> dict stale_before = Some Map.empty
   \<and> nxt (store stale_before root) = Some root \<and> prv (store stale_before root) = Some root
   \<and> lst (store stale_before 1) \<and> Prev (store stale_before) 1 = Some 2
   \<and> processEvents True stale_before = Inr (True, stale_after)
   \<and> dict stale_after = Some Map.empty \<and> len stale_after = 0
   \<and> nxt (store stale_after root) = Some 1 \<and> prv (store stale_after root) = Some 1
   \<and> map_option key (Value (store stale_after 1)) = Some ''a''
   \<and> (\<exists>m. Put ''c'' 3 stale_after = Inr m \<and> Keys m = Some (Inr [''a'', ''c'']) \<and> Len m = 1
          \<and> Get True ''a'' m = Inr ((0, False), m))
   \<and> Get_ch ''a'' (projr (and_then (and_then (New_ch 2) (Put_ch ''a'' (1::int))) (Put_ch ''b'' 2))) \<noteq> None
   \<and> and_then (and_then (and_then (and_then (New_ch 2) (Put_ch ''a'' 1)) (Put_ch ''b'' 2))
                 (\<lambda>m. and_then (the (Get_ch ''a'' m)) (\<lambda>(r, m'). Inr m'))) Clear_ch = Inr stale_before_ch
   \<and> ch stale_before_ch = Some [1] \<and> dict stale_before_ch = Some Map.empty
   \<and> nxt (store stale_before_ch root) = Some root \<and> prv (store stale_before_ch root) = Some root
   \<and> lst (store stale_before_ch 1) \<and> Prev (store stale_before_ch) 1 = Some 2
   \<and> processEvents_ch True stale_before_ch = Inr (True, stale_after_ch)
   \<and> dict stale_after_ch = Some Map.empty \<and> len stale_after_ch = 0
   \<and> nxt (store stale_after_ch root) = Some 1 \<and> prv (store stale_after_ch root) = Some 1
   \<and> (\<exists>m. Put_ch ''c'' 3 stale_after_ch = Inr m \<and> Keys_ch m = Some (Inr [''a'', ''c'']) \<and> Len m = 1
          \<and> Get_ch ''a'' m = Some (Inr ((0, False), m)))"
proof -
  have "and_then (and_then (and_then (New 2) (Puts [(''a'', 1), (''b'', 2)]))
              (\<lambda>m. and_then (Get True ''a'' m) (\<lambda>(r, m'). Inr m'))) Clear = Inr stale_before
   \<and> ch stale_before = Some [1] \<and> dict stale_before = Some Map.empty
   \<and> nxt (store stale_before root) = Some root \<and> prv (store stale_before root) = Some root
   \<and> lst (store stale_before 1) \<and> Prev (store stale_before) 1 = Some 2
   \<and> processEvents True stale_before = Inr (True, stale_after)
   \<and> dict stale_after = Some Map.empty \<and> len stale_after = 0
   \<and> nxt (store stale_after root) = Some 1 \<and> prv (store stale_after root) = Some 1
   \<and> map_option key (Value (store stale_after 1)) = Some ''a''
   \<and> (\<exists>m. Put ''c'' 3 stale_after = Inr m \<and> Keys m = Some (Inr [''a'', ''c'']) \<and> Len m = 1
          \<and> Get True ''a'' m = Inr ((0, False), m))"
    by (simp add: stale_after_def stale_before_def exec_defs keys_loop.simps)
  moreover have "Get_ch ''a'' (projr (and_then (and_then (New_ch 2) (Put_ch ''a'' (1::int))) (Put_ch ''b'' 2))) \<noteq> None
   \<and> and_then (and_then (and_then (and_then (New_ch 2) (Put_ch ''a'' 1)) (Put_ch ''b'' 2))
                 (\<lambda>m. and_then (the (Get_ch ''a'' m)) (\<lambda>(r, m'). Inr m'))) Clear_ch = Inr stale_before_ch
   \<and> ch stale_before_ch = Some [1] \<and> dict stale_before_ch = Some Map.empty
   \<and> nxt (store stale_before_ch root) = Some root \<and> prv (store stale_before_ch root) = Some root
   \<and> lst (store stale_before_ch 1) \<and> Prev (store stale_before_ch) 1 = Some 2
   \<and> processEvents_ch True stale_before_ch = Inr (True, stale_after_ch)
   \<and> dict stale_after_ch = Some Map.empty \<and> len stale_after_ch = 0
   \<and> nxt (store stale_after_ch root) = Some 1 \<and> prv (store stale_after_ch root) = Some 1
   \<and> (\<exists>m. Put_ch ''c'' 3 stale_after_ch = Inr m \<and> Keys_ch m = Some (Inr [''a'', ''c'']) \<and> Len m = 1
          \<and> Get_ch ''a'' m = Some (Inr ((0, False), m)))"
    by (simp add: stale_after_ch_def stale_before_ch_def exec_ch exec_lru exec_defs keys_loop.simps)
  ultimately show ?thesis by (intro conjI) (elim conjE, assumption)+
qed

text \<open>
  C2 (every operation, the tracker's step included, keeps list, index and length equal
  and at most the capacity). After the step of C1, three further \<^verbatim>\<open>Put\<close> calls on the
  cache of capacity 2 evict the stale element instead of a live one: \<^verbatim>\<open>Len\<close> is 2
  while the index and \<^verbatim>\<open>Keys\<close> hold three keys. The step of C1 itself takes a state
  with the invariant to one without (\<open>stale_before_inv\<close>, \<open>stale_after_broken\<close>);
  \<open>Put_inv\<close>, \<open>Get_inv\<close>, \<open>Clear_inv\<close> and \<open>processEvents_linked\<close> show that every other
  step keeps the invariant.
\<close>

theorem C2_capacity_exceeded_after_stale_event:
  "Puts [(''c'', 3), (''d'', 4), (''e'', 5)] stale_after = Inr overfull
   \<and> capacity overfull = 2 \<and> Len overfull = 2
   \<and> Keys overfull = Some (Inr [''c'', ''d'', ''e''])
   \<and> lookup (dict overfull) ''c'' = Some 3 \<and> lookup (dict overfull) ''d'' = Some 4
   \<and> lookup (dict overfull) ''e'' = Some 5"
  by (simp add: overfull_def stale_after_def stale_before_def exec_defs keys_loop.simps)

text \<open>
  C3: for every capacity \<open>c > 0\<close>, putting \<open>c + 1\<close> distinct keys in order into a new
  cache, with no \<^verbatim>\<open>Get\<close> in between, never panics and leaves \<^verbatim>\<open>Len() = c\<close>; \<^verbatim>\<open>Get\<close>
  of the first key returns (zero, false) and \<^verbatim>\<open>Get\<close> of every other key returns the
  value put with it and true.
\<close>

theorem C3_first_key_evicted:
  assumes c: "0 < c" and d: "distinct (map fst kvs)" and n: "int (length kvs) = c + 1"
  shows "\<exists>m0 m. New c = Inr m0 \<and> Puts kvs m0 = Inr m \<and> Len m = c
           \<and> (\<forall>pick. \<exists>m'. Get pick (fst (hd kvs)) m = Inr ((0, False), m'))
           \<and> (\<forall>(k, v)\<in>set (tl kvs). \<forall>pick. \<exists>m'. Get pick k m = Inr ((v, True), m'))"
proof -
  let ?mk = "\<lambda>(k, v). \<lparr>key = k, val = v\<rparr>"
  from New_inv[OF c] obtain m0 :: "('a, 'b) Memoria" where m0:
    "New c = Inr m0" "cache_inv m0 []" "capacity m0 = c" "len m0 = 0"
    by blast
  from n c have "kvs \<noteq> []" by auto
  then obtain ini kv where kvs: "kvs = ini @ [kv]" by (metis rev_exhaust)
  obtain k v where kv: "kv = (k, v)" by (cases kv)
  from n kvs have li: "int (length ini) = c" by simp
  with c obtain kv0 rest where ini: "ini = kv0 # rest" by (cases ini) auto
  have di: "distinct (map fst ini)" using d kvs by simp
  from Puts_fill[OF m0(2) di] li m0(3,4) obtain m1 xs1 where m1:
    "Puts ini m0 = Inr m1" "cache_inv m1 xs1"
    "map (ent_at (store m1)) xs1 = rev (map ?mk ini)" "capacity m1 = c"
    by auto
  from m1(2) have W1: "cache_wf m1 xs1" by (simp add: cache_inv_def)
  from m1(3) have "length xs1 = length ini" by (metis length_map length_rev)
  with W1 li m1(4) have full: "\<not> len m1 < capacity m1" by (simp add: cache_wf_def)
  have "k \<notin> fst ` set ini" using d kvs kv by auto
  moreover have "key ` set (map (ent_at (store m1)) xs1) = fst ` set ini"
    unfolding m1(3) by (rule key_mk_image)
  ultimately have nk: "lookup (dict m1) k = None" using wf_lookup_None[OF W1, of k] by simp
  from Put_new[OF m1(2) nk, of v] full obtain m where m:
    "Put k v m1 = Inr m" "cache_inv m (fresh m1 # butlast xs1)"
    "map (ent_at (store m)) (fresh m1 # butlast xs1)
       = \<lparr>key = k, val = v\<rparr> # map (ent_at (store m1)) (butlast xs1)"
    "capacity m = capacity m1"
    by auto
  let ?xs = "fresh m1 # butlast xs1"
  from m(2) have W: "cache_wf m ?xs" by (simp add: cache_inv_def)
  have "map (ent_at (store m1)) (butlast xs1) = butlast (rev (map ?mk ini))"
    using m1(3) by (simp add: map_butlast)
  also have "\<dots> = rev (map ?mk rest)" using ini by simp
  finally have cont: "map (ent_at (store m)) ?xs = rev (map ?mk (rest @ [kv]))"
    using m(3) kv by simp
  have tl: "tl kvs = rest @ [kv]" and hd: "hd kvs = kv0" using kvs ini by simp_all
  have P: "Puts kvs m0 = Inr m"
    using m1(1) m(1) kvs kv by (simp add: Puts_append)
  have L: "Len m = c"
  proof -
    have "length ?xs = length (rest @ [kv])" using cont by (metis length_map length_rev)
    then show ?thesis using W li ini by (simp add: cache_wf_def Len_def)
  qed
  have "fst kv0 \<notin> fst ` set (rest @ [kv])" using d kvs ini by auto
  moreover have "key ` set (map (ent_at (store m)) ?xs) = fst ` set (rest @ [kv])"
    unfolding cont by (rule key_mk_image)
  ultimately have "lookup (dict m) (fst kv0) = None" using wf_lookup_None[OF W, of "fst kv0"] by simp
  then have G0: "\<forall>pick. \<exists>m'. Get pick (fst (hd kvs)) m = Inr ((0, False), m')"
    using Get_wf[OF W, of _ "fst kv0"] hd by simp
  have G1: "\<forall>(k, v)\<in>set (tl kvs). \<forall>pick. \<exists>m'. Get pick k m = Inr ((v, True), m')"
  proof (clarify)
    fix k' v' pick assume "(k', v') \<in> set (tl kvs)"
    then have "\<lparr>key = k', val = v'\<rparr> \<in> set (map (ent_at (store m)) ?xs)"
      unfolding cont tl by force
    from wf_Get_entry[OF W this] show "\<exists>m'. Get pick k' m = Inr ((v', True), m')" by simp
  qed
  from m0(1) P L G0 G1 show ?thesis by blast
qed

theorem C3_first_key_evicted_witness:
  "(0::int) < 2 \<and> distinct (map fst [(''a'', 1::int), (''b'', 2), (''c'', 3)])
   \<and> int (length [(''a'', 1::int), (''b'', 2), (''c'', 3)]) = 2 + 1
   \<and> (\<exists>m0 m. New 2 = Inr m0 \<and> Puts [(''a'', 1::int), (''b'', 2), (''c'', 3)] m0 = Inr m \<and> Len m = 2
        \<and> (\<exists>m'. Get True ''a'' m = Inr ((0, False), m'))
        \<and> (\<exists>m'. Get True ''b'' m = Inr ((2, True), m'))
        \<and> (\<exists>m'. Get True ''c'' m = Inr ((3, True), m')))"
proof -
  have h: "(0::int) < 2" "distinct (map fst [(''a'', 1::int), (''b'', 2), (''c'', 3)])"
    "int (length [(''a'', 1::int), (''b'', 2), (''c'', 3)]) = 2 + 1"
    by simp_all
  from C3_first_key_evicted[OF h] obtain m0 m where m:
    "New 2 = Inr m0" "Puts [(''a'', 1::int), (''b'', 2), (''c'', 3)] m0 = Inr m" "Len m = 2"
    "\<forall>pick. \<exists>m'. Get pick (fst (hd [(''a'', 1::int), (''b'', 2), (''c'', 3)])) m = Inr ((0, False), m')"
    "\<forall>(k, v)\<in>set (tl [(''a'', 1::int), (''b'', 2), (''c'', 3)]). \<forall>pick. \<exists>m'. Get pick k m = Inr ((v, True), m')"
    by (elim exE conjE) (rule that; assumption)
  from m(4) have "\<exists>m'. Get True ''a'' m = Inr ((0, False), m')" by simp
  moreover from m(5) have "\<exists>m'. Get True ''b'' m = Inr ((2, True), m')"
    "\<exists>m'. Get True ''c'' m = Inr ((3, True), m')" by simp_all
  ultimately show ?thesis using h m(1,2,3) by blast
qed

text \<open>
  C4 as stated (a present key is found whether or not the event was queued, also when
  the cache is closed) fails on a closed cache: \<^verbatim>\<open>Get\<close> first tests \<^verbatim>\<open>m.closed\<close> and
  returns (zero, false). In \<open>demo_closed\<close> the index still maps "a" to its element,
  whose value is 1, and \<^verbatim>\<open>Get("a")\<close> returns (0, false).
\<close>

theorem C4_closed_Get_counterexample:
  "and_then (New 2) (Puts [(''a'', 1), (''b'', 2)]) = Inr demo
   \<and> Close demo = Inr demo_closed \<and> lookup (dict demo_closed) ''a'' = Some 1
   \<and> Value (store demo_closed 1) = Some \<lparr>key = ''a'', val = 1\<rparr>
   \<and> Get True ''a'' demo_closed = Inr ((0, False), demo_closed)
   \<and> Get False ''a'' demo_closed = Inr ((0, False), demo_closed)"
  by (simp add: demo_closed_def demo_def exec_defs)

text \<open>
  C4, amended: on an open cache \<^verbatim>\<open>Get\<close> of a present key returns its value and true
  whether or not the event is queued, and with a full (or nil) queue it leaves the state
  as it is; on a closed cache \<^verbatim>\<open>Get\<close> returns (zero, false) for every key and queues
  nothing.
\<close>

theorem C4_Get_open_or_closed:
  "(\<not> closed m \<and> \<not> done_ch m \<and> lookup (dict m) k = Some a \<and> Value (store m a) = Some ent
      \<longrightarrow> (\<exists>m'. Get pick k m = Inr ((val ent, True), m')
             \<and> ((case ch m of None \<Rightarrow> True | Some q \<Rightarrow> chan_cap \<le> length q) \<longrightarrow> m' = m)))
   \<and> (closed m \<longrightarrow> Get pick k m = Inr ((0, False), m))"
  by (auto simp: Get_def split: option.splits)

theorem C4_Get_open_or_closed_witness:
  "Gets chan_cap ''a'' demo = Inr demo_full
   \<and> \<not> closed demo_full \<and> \<not> done_ch demo_full \<and> lookup (dict demo_full) ''a'' = Some 1
   \<and> Value (store demo_full 1) = Some \<lparr>key = ''a'', val = 1\<rparr>
   \<and> map_option length (ch demo_full) = Some chan_cap
   \<and> Get True ''a'' demo_full = Inr ((1, True), demo_full)
   \<and> closed demo_closed \<and> Get True ''a'' demo_closed = Inr ((0, False), demo_closed)"
proof -
  have h: "\<not> closed demo_full" "\<not> done_ch demo_full" "lookup (dict demo_full) ''a'' = Some 1"
    "Value (store demo_full 1) = Some \<lparr>key = ''a'', val = 1\<rparr>"
    "map_option length (ch demo_full) = Some chan_cap"
    by (simp_all add: demo_full_def demo_def exec_defs)
  have c: "closed demo_closed" by (simp add: demo_closed_def demo_def exec_defs)
  from h have f: "case ch demo_full of None \<Rightarrow> True | Some q \<Rightarrow> chan_cap \<le> length q"
    by (auto split: option.splits)
  show ?thesis
    using h c f demo_full_run C4_Get_open_or_closed[of demo_full "''a''" 1 "\<lparr>key = ''a'', val = 1\<rparr>" True]
      C4_Get_open_or_closed[of demo_closed "''a''" 1 "\<lparr>key = ''a'', val = 1\<rparr>" True]
    by auto
qed

text \<open>
  C5 (\<^verbatim>\<open>Keys\<close> returns the keys of all current entries from the tail of the list to its
  head, least recently used first; with capacity 3, after \<^verbatim>\<open>Put\<close> of a, b, c and a
  \<^verbatim>\<open>Get("a")\<close> whose event the tracker has processed, \<^verbatim>\<open>Keys\<close> is \<open>[b, c, a]\<close>). The
  scenario of the claim evaluates as it says: \<^verbatim>\<open>Keys\<close> is \<open>[a, b, c]\<close> before the tracker's
  step and \<open>[b, c, a]\<close> after it, and on every state with the invariant \<^verbatim>\<open>Keys\<close> lists
  the index from the tail to the head (\<open>Keys_tail_to_head\<close>). The general statement fails
  by the defect of C1: with capacity 3, after \<^verbatim>\<open>Put\<close> of a, b, c, \<^verbatim>\<open>Get("a"); Get("b");
  Clear()\<close> and the tracker's two steps, the elements of a and b are linked after the
  sentinel again while the sentinel's \<^verbatim>\<open>prev\<close> is the element of c. After \<^verbatim>\<open>Put("d", 4)\<close>
  the only current entry is d, and \<^verbatim>\<open>Keys\<close> is \<open>[c]\<close>. After the three further calls
  \<^verbatim>\<open>Put("e", 5); Put("f", 6); Put("g", 7)\<close> the last of them has evicted the element of
  c, which leaves the sentinel linked to itself while the list's length is 3, and
  \<^verbatim>\<open>Keys\<close> panics on the sentinel's nil \<^verbatim>\<open>Value\<close>.
\<close>

theorem C5_Keys_after_stale_events:
  "and_then (and_then (and_then (New 3) (Puts [(''a'', 1), (''b'', 2), (''c'', 3)]))
              (\<lambda>m. and_then (Get True ''a'' m)
                     (\<lambda>(r, m1). and_then (Get True ''b'' m1) (\<lambda>(r, m2). Inr m2)))) Clear = Inr dropped
   \<and> ch dropped = Some [1, 2]
   \<and> and_then (processEvents True dropped) (\<lambda>(r, m). processEvents True m) = Inr (True, relinked)
   \<and> ch relinked = Some [] \<and> \<not> closed relinked
   \<and> Put ''d'' 4 relinked = Inr shadowed \<and> \<not> closed shadowed \<and> Len shadowed = 1
   \<and> {k. lookup (dict shadowed) k \<noteq> None} = {''d''}
   \<and> Keys shadowed = Some (Inr [''c''])
   \<and> Puts [(''e'', 5), (''f'', 6), (''g'', 7)] shadowed = Inr hollow \<and> \<not> closed hollow
   \<and> Len hollow = 3 \<and> llen (the (ll hollow)) = 3
   \<and> nxt (store hollow root) = Some root \<and> prv (store hollow root) = Some root
   \<and> Keys hollow = Some (Inl BadAssert)
   \<and> and_then (and_then (New 3) (Puts [(''a'', 1), (''b'', 2), (''c'', 3)])) (Get True ''a'')
        = Inr ((1, True), touched)
   \<and> ch touched = Some [1] \<and> Keys touched = Some (Inr [''a'', ''b'', ''c''])
   \<and> processEvents True touched = Inr (True, drained)
   \<and> ch drained = Some [] \<and> Keys drained = Some (Inr [''b'', ''c'', ''a''])"
proof -
  have "and_then (and_then (and_then (New 3) (Puts [(''a'', 1), (''b'', 2), (''c'', 3)]))
              (\<lambda>m. and_then (Get True ''a'' m)
                     (\<lambda>(r, m1). and_then (Get True ''b'' m1) (\<lambda>(r, m2). Inr m2)))) Clear = Inr dropped
   \<and> ch dropped = Some [1, 2]
   \<and> and_then (processEvents True dropped) (\<lambda>(r, m). processEvents True m) = Inr (True, relinked)
   \<and> ch relinked = Some [] \<and> \<not> closed relinked
   \<and> Put ''d'' 4 relinked = Inr shadowed \<and> \<not> closed shadowed \<and> Len shadowed = 1
   \<and> {k. lookup (dict shadowed) k \<noteq> None} = {''d''}
   \<and> Keys shadowed = Some (Inr [''c''])"
    by (simp add: shadowed_def relinked_def dropped_def exec_defs keys_loop.simps)
  moreover have "Puts [(''e'', 5), (''f'', 6), (''g'', 7)] shadowed = Inr hollow \<and> \<not> closed hollow
   \<and> Len hollow = 3 \<and> llen (the (ll hollow)) = 3
   \<and> nxt (store hollow root) = Some root \<and> prv (store hollow root) = Some root
   \<and> Keys hollow = Some (Inl BadAssert)"
    by (simp add: hollow_def shadowed_def relinked_def dropped_def exec_defs keys_loop.simps)
  moreover have "and_then (and_then (New 3) (Puts [(''a'', 1), (''b'', 2), (''c'', 3)])) (Get True ''a'')
        = Inr ((1, True), touched)
   \<and> ch touched = Some [1] \<and> Keys touched = Some (Inr [''a'', ''b'', ''c''])
   \<and> processEvents True touched = Inr (True, drained)
   \<and> ch drained = Some [] \<and> Keys drained = Some (Inr [''b'', ''c'', ''a''])"
    by (simp add: drained_def touched_def exec_defs keys_loop.simps)
  ultimately show ?thesis by (intro conjI) (elim conjE, assumption)+
qed

text \<open>
  C6 (on an open cache, \<^verbatim>\<open>Put\<close> of a key that is present leaves \<^verbatim>\<open>Len\<close> unchanged,
  makes \<^verbatim>\<open>Get\<close> return the new value and makes the key the last element of \<^verbatim>\<open>Keys\<close>).
  On every state with the invariant the code does so (\<open>Put_existing_key\<close>). It fails by
  the defect of C1: with capacity 3, after \<^verbatim>\<open>Put\<close> of a, b, c, \<^verbatim>\<open>Get("a"); Get("b");
  Clear()\<close>, the tracker's two steps and \<^verbatim>\<open>Put("d", 4)\<close>, the key d is present and its
  element is the first of the list, but the sentinel's \<^verbatim>\<open>prev\<close> is the dropped element
  of c. \<^verbatim>\<open>Put("d", 5)\<close> then leaves \<^verbatim>\<open>Len\<close> at 1 and stores 5, and \<^verbatim>\<open>MoveToFront\<close> returns
  at once; \<^verbatim>\<open>Keys\<close> is \<open>[c]\<close> right after it: d is not its last element.
\<close>

theorem C6_Put_existing_after_stale_events:
  "and_then (and_then (and_then (New 3) (Puts [(''a'', 1), (''b'', 2), (''c'', 3)]))
              (\<lambda>m. and_then (Get True ''a'' m)
                     (\<lambda>(r, m1). and_then (Get True ''b'' m1) (\<lambda>(r, m2). Inr m2)))) Clear = Inr dropped
   \<and> ch dropped = Some [1, 2]
   \<and> and_then (processEvents True dropped) (\<lambda>(r, m). processEvents True m) = Inr (True, relinked)
   \<and> ch relinked = Some [] \<and> \<not> closed relinked
   \<and> Put ''d'' 4 relinked = Inr shadowed \<and> \<not> closed shadowed
   \<and> lookup (dict shadowed) ''d'' = Some 4 \<and> nxt (store shadowed root) = Some 4
   \<and> prv (store shadowed root) = Some 3
   \<and> Put ''d'' 5 shadowed = Inr reput \<and> \<not> closed reput
   \<and> Len shadowed = 1 \<and> Len reput = 1
   \<and> Get True ''d'' reput = Inr ((5, True), reput\<lparr>ch := Some [4]\<rparr>)
   \<and> Keys reput = Some (Inr [''c''])"
  by (simp add: reput_def shadowed_def relinked_def dropped_def exec_defs keys_loop.simps)

text \<open>
  C7 (\<^verbatim>\<open>Close\<close> twice is \<^verbatim>\<open>Close\<close> once, without fault). \<^verbatim>\<open>Close\<close> of part\_001 runs
  under \<^verbatim>\<open>sync.Once\<close> (\<open>Close_twice\<close>). \<^verbatim>\<open>Close\<close> of part\_002 is a bare
  \<^verbatim>\<open>close(m.done)\<close>: the first call closes the channel, the second one panics.
\<close>

theorem C7_part_002_second_Close_panics:
  "and_then (New_ch 1 :: error + (string, int) Memoria_ch) Close_ch
     = Inr \<lparr>capacity = 1, dict = Some Map.empty, ll = Some \<lparr>llen = 0\<rparr>, len = 0,
            store = (\<lambda>_. zeroElement)(root := zeroElement\<lparr>nxt := Some root, prv := Some root\<rparr>), fresh = 1,
            ch = Some [], done_ch = True\<rparr>
   \<and> and_then (and_then (New_ch 1 :: error + (string, int) Memoria_ch) Close_ch) Close_ch
       = Inl CloseOfClosed"
  by (simp add: exec_lru exec_defs)

text \<open>
  C8 as stated (\<^verbatim>\<open>Get\<close> leaves index and list as they are) fails on src/lru.go, whose
  \<^verbatim>\<open>Get\<close> calls \<^verbatim>\<open>MoveToFront\<close> itself: after \<^verbatim>\<open>Put("a", 1); Put("b", 2)\<close> the list
  starts with the element of "b" and \<^verbatim>\<open>Keys\<close> is \<open>[a, b]\<close>; after \<^verbatim>\<open>Get("a")\<close> it starts
  with the element of "a" and \<^verbatim>\<open>Keys\<close> is \<open>[b, a]\<close>.
\<close>

theorem C8_lru_Get_counterexample:
  "and_then (and_then (New_lru 2) (Put_lru ''a'' 1)) (Put_lru ''b'' 2) = Inr demo_lru
   \<and> Keys_lru demo_lru = Some (Inr [''a'', ''b''])
   \<and> Get_lru ''a'' demo_lru = Inr ((1, True), demo_lru_got)
   \<and> Keys_lru demo_lru_got = Some (Inr [''b'', ''a''])
   \<and> nxt (store demo_lru root) = Some 2 \<and> nxt (store demo_lru_got root) = Some 1"
  by (simp add: demo_lru_got_def demo_lru_def exec_lru exec_defs keys_loop.simps)

text \<open>
  C8, amended: \<^verbatim>\<open>Get\<close> of part\_001 changes neither index, store, list header nor
  length (it can only add to the event queue), and for an absent key it returns
  (zero, false) and the state it was given. \<^verbatim>\<open>Get\<close> of src/lru.go changes neither
  index, length nor any stored entry, and does the same for an absent key; for a
  present key it returns true and moves the element to the front of the list.
\<close>

theorem C8_Get_frame:
  "(Get pick k m = Inr (r, m') \<longrightarrow>
      dict m' = dict m \<and> store m' = store m \<and> ll m' = ll m \<and> len m' = len m
      \<and> (lookup (dict m) k = None \<longrightarrow> m' = m \<and> r = (0, False)))
   \<and> (Get_lru k2 l = Inr (r2, l') \<longrightarrow>
      dict l' = dict l \<and> ll l' = ll l \<and> len l' = len l
      \<and> (\<forall>a. Value (store l' a) = Value (store l a))
      \<and> (lookup (dict l) k2 = None \<longrightarrow> l' = l \<and> r2 = (0, False)))
   \<and> (ring (store l) xs \<and> ll l \<noteq> None \<and> lookup (dict l) k2 = Some a \<and> a \<in> set xs
        \<and> Value (store l a) \<noteq> None \<longrightarrow>
      (\<exists>v l'. Get_lru k2 l = Inr ((v, True), l') \<and> ring (store l') (a # remove1 a xs)))"
proof (intro conjI impI)
  assume "Get pick k m = Inr (r, m')"
  then show "dict m' = dict m" "store m' = store m" "ll m' = ll m" "len m' = len m"
    by (auto simp: Get_def Let_def split: if_splits option.splits)
next
  assume "Get pick k m = Inr (r, m')" "lookup (dict m) k = None"
  then show "m' = m" "r = (0, False)"
    by (auto simp: Get_def Let_def split: if_splits option.splits)
next
  assume G: "Get_lru k2 l = Inr (r2, l')"
  then show "dict l' = dict l" "ll l' = ll l" "len l' = len l"
    by (auto simp: Get_lru_def and_then_def split: if_splits option.splits sum.splits)
  show "\<forall>a. Value (store l' a) = Value (store l a)"
  proof (cases "lookup (dict l) k2")
    case None
    with G show ?thesis by (simp add: Get_lru_def)
  next
    case (Some e)
    with G obtain h where "MoveToFront (ll l) e (store l) = Inr h" "store l' = h"
      by (auto simp: Get_lru_def and_then_def split: option.splits sum.splits)
    with MoveToFront_payload[of "ll l" e "store l" h] show ?thesis
      by (simp add: same_payload_def)
  qed
next
  assume "Get_lru k2 l = Inr (r2, l')" "lookup (dict l) k2 = None"
  then show "l' = l" "r2 = (0, False)"
    by (auto simp: Get_lru_def)
next
  assume A: "ring (store l) xs \<and> ll l \<noteq> None \<and> lookup (dict l) k2 = Some a \<and> a \<in> set xs
        \<and> Value (store l a) \<noteq> None"
  then obtain li ent where li: "ll l = Some li" and ent: "Value (store l a) = Some ent" by auto
  from A MoveToFront_ring[of "store l" xs a li] obtain h' where h':
    "MoveToFront (Some li) a (store l) = Inr h'" "ring h' (a # remove1 a xs)" "same_payload (store l) h'"
    by blast
  from h'(3) ent have "Value (h' a) = Some ent" by (simp add: same_payload_def)
  with A li h'(1,2) show "\<exists>v l'. Get_lru k2 l = Inr ((v, True), l') \<and> ring (store l') (a # remove1 a xs)"
    by (simp add: Get_lru_def)
qed

theorem C8_Get_frame_witness:
  "Get True ''a'' demo = Inr ((1, True), demo\<lparr>ch := Some [1]\<rparr>)
   \<and> store (demo\<lparr>ch := Some [1]\<rparr>) = store demo
   \<and> Get True ''z'' demo = Inr ((0, False), demo)
   \<and> ring (store demo_lru) [2, 1] \<and> lookup (dict demo_lru) ''a'' = Some 1
   \<and> Get_lru ''a'' demo_lru = Inr ((1, True), demo_lru_got)
   \<and> ring (store demo_lru_got) [1, 2]
   \<and> dict demo_lru_got = dict demo_lru"
proof -
  have g: "Get True ''a'' demo = Inr ((1, True), demo\<lparr>ch := Some [1]\<rparr>)"
    "Get True ''z'' demo = Inr ((0, False), demo)"
    by (simp_all add: demo_def exec_defs)
  have r: "ring (store demo_lru) [2, 1]" "ll demo_lru \<noteq> None" "lookup (dict demo_lru) ''a'' = Some 1"
    "Value (store demo_lru 1) \<noteq> None"
    by (simp_all add: demo_lru_def exec_lru exec_defs ring_def link_def)
  have gl: "Get_lru ''a'' demo_lru = Inr ((1, True), demo_lru_got)"
    by (simp add: demo_lru_got_def demo_lru_def exec_lru exec_defs)
  from C8_Get_frame[of True "''a''" demo "(1, True)" "demo\<lparr>ch := Some [1]\<rparr>"
      "''a''" demo_lru "(1, True)" demo_lru_got "[2, 1]" 1] g r gl
  show ?thesis by auto
qed

text \<open>
  C9 (on an open cache of capacity at least 1, \<^verbatim>\<open>Put\<close> of a key that is absent never
  evicts that key: right after it the key is present with the value put). On every state
  with the invariant the code does so (\<open>Put_new_key_stays\<close>). It fails by the defect of
  C1: with capacity 3, after \<^verbatim>\<open>Put\<close> of a, b, c, \<^verbatim>\<open>Get("a"); Get("b"); Clear()\<close>, the
  tracker's two steps and \<^verbatim>\<open>Put\<close> of d, e, f, g, the last of these calls has evicted the
  dropped element of c, whose removal links the sentinel to itself, while the index
  holds d, e, f, g and \<^verbatim>\<open>Len\<close> is 3. \<^verbatim>\<open>Put("h", 8)\<close> then pushes h, the only element the
  sentinel reaches, and \<^verbatim>\<open>evict\<close> takes it as the tail: h is absent right after its own
  \<^verbatim>\<open>Put\<close>, and the four earlier keys are all still in the index.
\<close>

theorem C9_Put_new_key_evicted_after_stale_events:
  "and_then (and_then (and_then (New 3) (Puts [(''a'', 1), (''b'', 2), (''c'', 3)]))
              (\<lambda>m. and_then (Get True ''a'' m)
                     (\<lambda>(r, m1). and_then (Get True ''b'' m1) (\<lambda>(r, m2). Inr m2)))) Clear = Inr dropped
   \<and> ch dropped = Some [1, 2]
   \<and> and_then (processEvents True dropped) (\<lambda>(r, m). processEvents True m) = Inr (True, relinked)
   \<and> ch relinked = Some [] \<and> \<not> closed relinked
   \<and> Puts [(''d'', 4), (''e'', 5), (''f'', 6), (''g'', 7)] relinked = Inr hollow
   \<and> \<not> closed hollow \<and> capacity hollow = 3 \<and> Len hollow = 3
   \<and> lookup (dict hollow) ''h'' = None
   \<and> nxt (store hollow root) = Some root \<and> prv (store hollow root) = Some root
   \<and> Put ''h'' 8 hollow = Inr selfevicted \<and> \<not> closed selfevicted
   \<and> lookup (dict selfevicted) ''h'' = None
   \<and> Get True ''h'' selfevicted = Inr ((0, False), selfevicted)
   \<and> lookup (dict selfevicted) ''d'' = Some 4 \<and> lookup (dict selfevicted) ''e'' = Some 5
   \<and> lookup (dict selfevicted) ''f'' = Some 6 \<and> lookup (dict selfevicted) ''g'' = Some 7
   \<and> Len selfevicted = 3"
  by (simp add: selfevicted_def hollow_def relinked_def dropped_def exec_defs keys_loop.simps)

text \<open>
  C10: after \<^verbatim>\<open>Close\<close>, \<^verbatim>\<open>Keys\<close> returns the empty sequence, whatever the cache held.
  The hypothesis says that the three lifecycle flags agree, as they do in every state
  the operations reach (\<^verbatim>\<open>New\<close> clears them, \<^verbatim>\<open>Close\<close> sets them together, and
  nothing else writes them: the lemmas \<open>lifecycle_New\<close> to \<open>lifecycle_processEvents\<close>).
\<close>

theorem C10_Keys_after_Close:
  assumes "lifecycle_ok m"
  shows "\<exists>m'. Close m = Inr m' \<and> closed m' \<and> Keys m' = Some (Inr [])"
  using assms by (auto simp: Close_def Keys_def lifecycle_ok_def)

theorem C10_Keys_after_Close_witness:
  "lifecycle_ok demo \<and> Keys demo = Some (Inr [''a'', ''b''])
   \<and> Close demo = Inr demo_closed \<and> Keys demo_closed = Some (Inr [])"
proof -
  have h: "lifecycle_ok demo"
    by (simp add: demo_def exec_defs lifecycle_ok_def)
  have k: "Keys demo = Some (Inr [''a'', ''b''])" "Close demo = Inr demo_closed"
    by (simp_all add: demo_closed_def demo_def exec_defs keys_loop.simps)
  from C10_Keys_after_Close[OF h] k h show ?thesis by auto
qed

end
